theory Spec2Isabelle
  imports Main
begin

section \<open>Values of the program\<close>

text \<open>
  The values the parser module works on are the values \<open>JSON.parse\<close> builds: trees
  without sharing. A string is a list of 8-bit characters (the code units below 256), a
  number is an integer (doubles are not modelled), an object is the list of its own
  properties in the order the engine enumerates them. The JavaScript value
  \<open>undefined\<close> is \<open>None\<close> of \<open>json option\<close>.
\<close>

datatype json =
    JNull
  | JBool bool
  | JNum int
  | JStr string
  | JArr "json list"
  | JObj "(string \<times> json) list"

text \<open>Truthiness (\<open>!x\<close>, \<open>x && ...\<close>, \<open>x || ...\<close>, \<open>Boolean(x)\<close>).\<close>

fun truthy :: "json \<Rightarrow> bool" where
  "truthy JNull = False"
| "truthy (JBool b) = b"
| "truthy (JNum n) = (n \<noteq> 0)"
| "truthy (JStr s) = (s \<noteq> [])"
| "truthy (JArr xs) = True"
| "truthy (JObj kvs) = True"

text \<open>\<open>x && typeof x === "object"\<close>: an object or an array.\<close>

fun is_object :: "json \<Rightarrow> bool" where
  "is_object (JArr xs) = True"
| "is_object (JObj kvs) = True"
| "is_object v = False"

subsection \<open>Decimal numerals\<close>

definition digit_char :: "nat \<Rightarrow> char" where
  "digit_char d = ''0123456789'' ! (d mod 10)"

function show_nat :: "nat \<Rightarrow> string" where
  "show_nat n = (if n < 10 then [digit_char n] else show_nat (n div 10) @ [digit_char n])"
  by pat_completeness auto
termination
  by (relation "measure id") auto

declare show_nat.simps [simp del]

definition show_int :: "int \<Rightarrow> string" where
  "show_int i = (if i < 0 then CHR ''-'' # show_nat (nat (- i)) else show_nat (nat i))"

definition is_digit :: "char \<Rightarrow> bool" where
  "is_digit c = (c \<in> set ''0123456789'')"

definition digit_val :: "char \<Rightarrow> int" where
  "digit_val c = of_char c - 48"

definition digits_val :: "string \<Rightarrow> int" where
  "digits_val ds = foldl (\<lambda>acc c. 10 * acc + digit_val c) 0 ds"

subsection \<open>Own properties of an object\<close>

text \<open>
  An engine enumerates the own properties of an ordinary object with the array indices
  first (the canonical numerals below \<open>2^32 - 1\<close>, ascending) and the other names after
  them in the order of their creation. \<open>obj_set\<close> is the definition or assignment of
  one own data property: an existing name keeps its place.
\<close>

definition is_array_index :: "string \<Rightarrow> bool" where
  "is_array_index k =
     (k \<noteq> [] \<and> list_all is_digit k \<and> (k = ''0'' \<or> hd k \<noteq> CHR ''0'')
        \<and> digits_val k < 4294967295)"

fun obj_get :: "(string \<times> json) list \<Rightarrow> string \<Rightarrow> json option" where
  "obj_get [] k = None"
| "obj_get ((k', v) # kvs) k = (if k' = k then Some v else obj_get kvs k)"

fun obj_replace :: "(string \<times> json) list \<Rightarrow> string \<Rightarrow> json \<Rightarrow> (string \<times> json) list" where
  "obj_replace [] k v = []"
| "obj_replace ((k', v') # kvs) k v =
     (if k' = k then (k, v) # kvs else (k', v') # obj_replace kvs k v)"

fun obj_insert_index :: "(string \<times> json) list \<Rightarrow> string \<Rightarrow> json \<Rightarrow> (string \<times> json) list" where
  "obj_insert_index [] k v = [(k, v)]"
| "obj_insert_index ((k', v') # kvs) k v =
     (if is_array_index k' \<and> digits_val k' < digits_val k
      then (k', v') # obj_insert_index kvs k v
      else (k, v) # (k', v') # kvs)"

definition obj_set :: "(string \<times> json) list \<Rightarrow> string \<Rightarrow> json \<Rightarrow> (string \<times> json) list" where
  "obj_set kvs k v =
     (if obj_get kvs k \<noteq> None then obj_replace kvs k v
      else if is_array_index k then obj_insert_index kvs k v
      else kvs @ [(k, v)])"

text \<open>
  The own enumerable properties of a value that passed \<open>typeof x === "object"\<close>: the
  members of an object, the elements of an array under their indices.
\<close>

fun index_entries :: "nat \<Rightarrow> json list \<Rightarrow> (string \<times> json) list" where
  "index_entries i [] = []"
| "index_entries i (x # xs) = (show_nat i, x) # index_entries (Suc i) xs"

fun own_entries :: "json \<Rightarrow> (string \<times> json) list" where
  "own_entries (JObj kvs) = kvs"
| "own_entries (JArr xs) = index_entries 0 xs"
| "own_entries v = []"

text \<open>
  A property read \<open>x.name\<close> for a name that no prototype defines (every name this
  module reads: \<open>items\<close>, \<open>Bookmark_ID\<close>, \<open>result\<close>, \<open>sources\<close>, \<open>document\<close>, the
  pagination names): the own property of an object, \<open>undefined\<close> on anything else.
\<close>

fun get_prop :: "json \<Rightarrow> string \<Rightarrow> json option" where
  "get_prop (JObj kvs) k = obj_get kvs k"
| "get_prop v k = None"

text \<open>\<open>{...a, ...b}\<close> copies own properties with CreateDataProperty, in order.\<close>

definition copy_props :: "(string \<times> json) list \<Rightarrow> (string \<times> json) list \<Rightarrow> (string \<times> json) list" where
  "copy_props target src = foldl (\<lambda>t (k, v). obj_set t k v) target src"

definition spread2 :: "(string \<times> json) list \<Rightarrow> (string \<times> json) list \<Rightarrow> (string \<times> json) list" where
  "spread2 a b = copy_props (copy_props [] a) b"

text \<open>
  \<open>Object.assign(target, src)\<close> assigns with [[Set]]. For the name \<open>__proto__\<close> that
  is the accessor of \<open>Object.prototype\<close> unless the target has an own property of the
  name: the setter changes the prototype at most and creates no own property. No read of
  this module sees the prototype of a record, and the model does not follow it: a second
  assignment of \<open>__proto__\<close> after one that changed the prototype is outside the model.
\<close>

definition assign_prop :: "(string \<times> json) list \<Rightarrow> string \<times> json \<Rightarrow> (string \<times> json) list" where
  "assign_prop t kv =
     (if fst kv = ''__proto__'' \<and> obj_get t (fst kv) = None then t
      else obj_set t (fst kv) (snd kv))"

definition object_assign :: "(string \<times> json) list \<Rightarrow> (string \<times> json) list \<Rightarrow> (string \<times> json) list" where
  "object_assign target src = foldl assign_prop target src"

subsection \<open>Strings\<close>

text \<open>White space of \<open>String.prototype.trim\<close> and of \<open>\s\<close> among the 8-bit characters.\<close>

definition is_space :: "char \<Rightarrow> bool" where
  "is_space c = (c \<in> {CHR 0x09, CHR 0x0A, CHR 0x0B, CHR 0x0C, CHR 0x0D, CHR 0x20, CHR 0xA0})"

definition trim :: "string \<Rightarrow> string" where
  "trim s = rev (dropWhile is_space (rev (dropWhile is_space s)))"

section \<open>normalizeKarakeepPayload\<close>

text \<open>
  The first loop: a row with an own \<open>Bookmark_ID\<close> starts a new bookmark, another object
  row is assigned into the current one, anything else is ignored.
\<close>

fun has_own_bookmark_id :: "json \<Rightarrow> bool" where
  "has_own_bookmark_id (JObj kvs) = (obj_get kvs ''Bookmark_ID'' \<noteq> None)"
| "has_own_bookmark_id v = False"

fun coalesce_rows ::
  "json list \<Rightarrow> (string \<times> json) list list \<Rightarrow> (string \<times> json) list option
     \<Rightarrow> (string \<times> json) list list \<times> (string \<times> json) list option" where
  "coalesce_rows [] coalesced current = (coalesced, current)"
| "coalesce_rows (row # rows) coalesced current =
     (if truthy row \<and> is_object row \<and> has_own_bookmark_id row then
        coalesce_rows rows
          (case current of None \<Rightarrow> coalesced | Some c \<Rightarrow> coalesced @ [c])
          (Some (copy_props [] (own_entries row)))
      else if truthy row \<and> is_object row \<and> current \<noteq> None then
        coalesce_rows rows coalesced (Some (object_assign (the current) (own_entries row)))
      else
        coalesce_rows rows coalesced current)"

definition coalesce :: "json list \<Rightarrow> (string \<times> json) list list" where
  "coalesce rows =
     (case coalesce_rows rows [] None of
        (coalesced, None) \<Rightarrow> coalesced
      | (coalesced, Some c) \<Rightarrow> coalesced @ [c])"

text \<open>
  The second loop keys a \<open>Map\<close> by \<open>it.Bookmark_ID || `tmp_${byId.size}`\<close>. A \<open>Map\<close>
  compares primitive keys by value and objects by identity; in a tree every object is
  another one, so a truthy identifier that is an object or an array is a key of its own,
  named here by the position of its record.
\<close>

datatype map_key = Prim json | Ref nat

type_synonym id_map = "(map_key \<times> (string \<times> json) list) list"

fun map_get :: "id_map \<Rightarrow> map_key \<Rightarrow> (string \<times> json) list option" where
  "map_get [] k = None"
| "map_get ((k', v) # m) k = (if k' = k then Some v else map_get m k)"

fun map_set :: "id_map \<Rightarrow> map_key \<Rightarrow> (string \<times> json) list \<Rightarrow> id_map" where
  "map_set [] k v = [(k, v)]"
| "map_set ((k', v') # m) k v = (if k' = k then (k, v) # m else (k', v') # map_set m k v)"

definition record_key :: "id_map \<Rightarrow> nat \<Rightarrow> (string \<times> json) list \<Rightarrow> map_key" where
  "record_key byId pos it =
     (case obj_get it ''Bookmark_ID'' of
        Some v \<Rightarrow>
          if truthy v then (if is_object v then Ref pos else Prim v)
          else Prim (JStr (''tmp_'' @ show_nat (length byId)))
      | None \<Rightarrow> Prim (JStr (''tmp_'' @ show_nat (length byId))))"

fun dedupe :: "(string \<times> json) list list \<Rightarrow> nat \<Rightarrow> id_map \<Rightarrow> id_map" where
  "dedupe [] pos byId = byId"
| "dedupe (it # its) pos byId =
     (let id = record_key byId pos it;
          existing = (case map_get byId id of Some e \<Rightarrow> e | None \<Rightarrow> [])
      in dedupe its (Suc pos) (map_set byId id (spread2 existing it)))"

text \<open>The pagination token: the first candidate that is a string with a non-blank trim.\<close>

fun is_token :: "json option \<Rightarrow> bool" where
  "is_token (Some (JStr s)) = (trim s \<noteq> [])"
| "is_token t = False"

definition find_token :: "json option list \<Rightarrow> string option" where
  "find_token cands = (case find is_token cands of Some (Some (JStr s)) \<Rightarrow> Some s | _ \<Rightarrow> None)"

definition normalizeKarakeepPayload :: "json \<Rightarrow> json" where
  "normalizeKarakeepPayload raw =
     (if \<not> truthy raw \<or> \<not> is_object raw then
        JObj [(''items'', JArr []), (''nextCursor'', JNull), (''hasMore'', JBool False)]
      else
        let rows = (case get_prop raw ''items'' of Some (JArr xs) \<Rightarrow> xs | _ \<Rightarrow> []);
            coalesced = coalesce rows;
            byId = dedupe coalesced 0 [];
            nextCursor = find_token
              [get_prop raw ''nextCursor'', get_prop raw ''next_cursor'',
               get_prop raw ''nextPageToken'', get_prop raw ''next_page_token'',
               get_prop raw ''cursor''];
            hasMore =
              (case get_prop raw ''hasMore'' of
                 Some (JBool b) \<Rightarrow> b
               | _ \<Rightarrow>
                 (case get_prop raw ''has_more'' of
                    Some (JBool b) \<Rightarrow> b
                  | _ \<Rightarrow> (case nextCursor of None \<Rightarrow> False | Some s \<Rightarrow> s \<noteq> [] \<and> trim s \<noteq> [])))
        in JObj [(''items'', JArr (map (\<lambda>kv. JObj (snd kv)) byId)),
                 (''nextCursor'', (case nextCursor of None \<Rightarrow> JNull | Some s \<Rightarrow> JStr s)),
                 (''hasMore'', JBool hasMore)])"

text \<open>
  The explicit boolean of the input, as the hasMore resolution reads it: \<open>hasMore\<close>
  when it is a boolean, else \<open>has_more\<close> when it is a boolean.
\<close>

definition explicit_hasMore :: "json \<Rightarrow> bool option" where
  "explicit_hasMore raw =
     (case get_prop raw ''hasMore'' of
        Some (JBool b) \<Rightarrow> Some b
      | _ \<Rightarrow> (case get_prop raw ''has_more'' of Some (JBool b) \<Rightarrow> Some b | _ \<Rightarrow> None))"

section \<open>parseKVBlocks\<close>

subsection \<open>The regular expressions of the module, as list functions\<close>

text \<open>
  \<open>.\<close> matches every character but a line terminator; among the 8-bit characters the
  line terminators are LF and CR. \<open>\w\<close> is a letter, a digit or the underscore. The
  flag \<open>i\<close> folds the letters A to Z only: no other 8-bit character has an upper case
  among them.
\<close>

definition is_line_terminator :: "char \<Rightarrow> bool" where
  "is_line_terminator c = (c \<in> {CHR 0x0A, CHR 0x0D})"

definition is_word_char :: "char \<Rightarrow> bool" where
  "is_word_char c =
     (c \<in> set ''ABCDEFGHIJKLMNOPQRSTUVWXYZabcdefghijklmnopqrstuvwxyz0123456789_'')"

definition lower_char :: "char \<Rightarrow> char" where
  "lower_char c =
     (case map_of (zip ''ABCDEFGHIJKLMNOPQRSTUVWXYZ'' ''abcdefghijklmnopqrstuvwxyz'') c of
        Some l \<Rightarrow> l
      | None \<Rightarrow> c)"

definition lower :: "string \<Rightarrow> string" where
  "lower s = map lower_char s"

text \<open>
  \<open>s.split(/\r?\n/)\<close>: a separator is a LF with the CR before it, if there is one. The
  result has one more piece than there are separators; the empty string gives one empty
  piece.
\<close>

definition strip_cr :: "string \<Rightarrow> string" where
  "strip_cr s = (if s \<noteq> [] \<and> last s = CHR 0x0D then butlast s else s)"

fun split_lines_acc :: "string \<Rightarrow> string \<Rightarrow> string list" where
  "split_lines_acc [] acc = [rev acc]"
| "split_lines_acc (c # cs) acc =
     (if c = CHR 0x0A then strip_cr (rev acc) # split_lines_acc cs []
      else split_lines_acc cs (c # acc))"

definition split_lines :: "string \<Rightarrow> string list" where
  "split_lines s = split_lines_acc s []"

text \<open>\<open>s.split(",")\<close>.\<close>

fun split_comma_acc :: "string \<Rightarrow> string \<Rightarrow> string list" where
  "split_comma_acc [] acc = [rev acc]"
| "split_comma_acc (c # cs) acc =
     (if c = CHR '','' then rev acc # split_comma_acc cs []
      else split_comma_acc cs (c # acc))"

definition split_comma :: "string \<Rightarrow> string list" where
  "split_comma s = split_comma_acc s []"

text \<open>
  \<open>line.match(/^(\s*)([^:]+):\s*(.*)$/)\<close>. The second group cannot hold a colon and is
  followed by one, so it ends at the first colon of the line and needs a character before
  it. The first group takes the leading white space; when everything before the colon is
  white space it gives the last such character back to the second group. After the colon
  \<open>\s*\<close> takes the white space, and \<open>(.*)$\<close> must reach the end of the line: no line
  terminator may be left. The result is the three groups.
\<close>

definition match_kv_line :: "string \<Rightarrow> (string \<times> string \<times> string) option" where
  "match_kv_line line =
     (let pre = takeWhile (\<lambda>c. c \<noteq> CHR '':'') line;
          post = dropWhile (\<lambda>c. c \<noteq> CHR '':'') line
      in if post = [] \<or> pre = [] then None
         else
           let v = dropWhile is_space (tl post);
               ws = takeWhile is_space pre
           in if list_ex is_line_terminator v then None
              else if ws = pre then Some (butlast pre, [last pre], v)
              else Some (ws, drop (length ws) pre, v))"

text \<open>\<open>/^next\s+cursor$/i.test(key)\<close> and \<open>/^tags?$/i.test(key)\<close>.\<close>

definition is_next_cursor_key :: "string \<Rightarrow> bool" where
  "is_next_cursor_key k =
     (let l = lower k
      in take 4 l = ''next'' \<and> takeWhile is_space (drop 4 l) \<noteq> []
         \<and> dropWhile is_space (drop 4 l) = ''cursor'')"

definition is_tags_key :: "string \<Rightarrow> bool" where
  "is_tags_key k = (lower k = ''tag'' \<or> lower k = ''tags'')"

text \<open>
  \<open>s.replace(/^c+|c+$/g, "")\<close> for a character \<open>c\<close> (the quote, the underscore): the
  run of \<open>c\<close> at the start and the run at the end are removed.
\<close>

definition strip_both :: "char \<Rightarrow> string \<Rightarrow> string" where
  "strip_both c s = rev (dropWhile (\<lambda>x. x = c) (rev (dropWhile (\<lambda>x. x = c) s)))"

text \<open>\<open>s.replace(/\s+/g, "_")\<close>: every run of white space becomes one underscore.\<close>

fun collapse_run :: "bool \<Rightarrow> string \<Rightarrow> string" where
  "collapse_run in_run [] = []"
| "collapse_run in_run (c # cs) =
     (if is_space c then (if in_run then collapse_run True cs else CHR ''_'' # collapse_run True cs)
      else c # collapse_run False cs)"

definition collapse_spaces :: "string \<Rightarrow> string" where
  "collapse_spaces s = collapse_run False s"

text \<open>
  The key of the item:
  \<open>key.replace(/\s+/g, "_").replace(/[^\w]/g, "_").replace(/^_+|_+$/g, "")\<close>.
\<close>

definition normKey :: "string \<Rightarrow> string" where
  "normKey k =
     strip_both (CHR ''_'')
       (map (\<lambda>c. if is_word_char c then c else CHR ''_'') (collapse_spaces k))"

subsection \<open>The loop over the lines\<close>

record kv_state =
  kv_items :: "json list"
  kv_current :: "(string \<times> json) list option"
  kv_cursor :: "string option"
  kv_hasMore :: "bool option"

definition flush :: "kv_state \<Rightarrow> kv_state" where
  "flush st =
     (case kv_current st of
        Some c \<Rightarrow>
          if c \<noteq> [] then st\<lparr>kv_items := kv_items st @ [JObj c], kv_current := None\<rparr>
          else st\<lparr>kv_current := None\<rparr>
      | None \<Rightarrow> st\<lparr>kv_current := None\<rparr>)"

definition kv_line :: "kv_state \<Rightarrow> string \<Rightarrow> kv_state" where
  "kv_line st rawLine =
     (case match_kv_line rawLine of
        None \<Rightarrow> st
      | Some (indent, k, v) \<Rightarrow>
          let key = trim k in
          if is_next_cursor_key key then
            let cursor = trim (strip_both (CHR 0x27) v)
            in st\<lparr>kv_cursor := Some cursor,
                  kv_hasMore := Some (cursor \<noteq> [] \<and> cursor \<noteq> ''0'')\<rparr>
          else
            let st1 = (if indent = [] \<and> kv_current st \<noteq> None \<and> the (kv_current st) \<noteq> []
                       then flush st else st);
                current = (case kv_current st1 of None \<Rightarrow> [] | Some c \<Rightarrow> c);
                field =
                  (if is_tags_key key
                   then JArr (map JStr (filter (\<lambda>t. t \<noteq> []) (map trim (split_comma v))))
                   else JStr (trim v))
            in st1\<lparr>kv_current := Some (obj_set current (normKey key) field)\<rparr>)"

definition parseKVBlocks :: "string \<Rightarrow> json option" where
  "parseKVBlocks txt =
     (let st = flush
                 (foldl kv_line
                    \<lparr>kv_items = [], kv_current = None, kv_cursor = None, kv_hasMore = None\<rparr>
                    (split_lines txt))
      in if kv_items st \<noteq> [] \<or> kv_cursor st \<noteq> None then
           Some (JObj [(''items'', JArr (kv_items st)),
                       (''cursor'', (case kv_cursor st of None \<Rightarrow> JNull | Some c \<Rightarrow> JStr c)),
                       (''hasMore'', JBool (kv_hasMore st = Some True))])
         else None)"

text \<open>The free text of the specification's fourth example.\<close>

definition example_4_text :: string where
  "example_4_text =
     ''Title: Hello'' @ [CHR 0x0A] @ ''Tags: a, b, c'' @ [CHR 0x0A]
       @ ''Next cursor: '' @ [CHR 0x27] @ ''7'' @ [CHR 0x27]"

section \<open>JSON texts\<close>

text \<open>
  \<open>JSON.parse\<close> and \<open>JSON.stringify\<close> belong to the platform, not to the repository.
  They are modelled on the values above: a text whose numbers carry a fraction or an
  exponent, or whose strings escape a character at or above \<open>0x100\<close>, denotes a value
  outside the model, and the model's \<open>JSON_parse\<close> gives \<open>None\<close> for it as it does for
  a text that is not JSON. \<open>None\<close> is the SyntaxError of \<open>JSON.parse\<close>.
\<close>

subsection \<open>Tokens\<close>

datatype token =
    TLBrace | TRBrace | TLBracket | TRBracket | TColon | TComma
  | TString string | TNumber int | TTrue | TFalse | TNull

definition is_json_ws :: "char \<Rightarrow> bool" where
  "is_json_ws c = (c \<in> {CHR 0x20, CHR 0x09, CHR 0x0A, CHR 0x0D})"

definition is_control :: "char \<Rightarrow> bool" where
  "is_control c = ((of_char c :: int) < 32)"

definition hex_val :: "char \<Rightarrow> int option" where
  "hex_val c =
     map_of (zip ''0123456789abcdefABCDEF''
                 [0, 1, 2, 3, 4, 5, 6, 7, 8, 9, 10, 11, 12, 13, 14, 15, 10, 11, 12, 13, 14, 15]) c"

definition unicode_escape :: "char \<Rightarrow> char \<Rightarrow> char \<Rightarrow> char \<Rightarrow> char option" where
  "unicode_escape h1 h2 h3 h4 =
     (case (hex_val h1, hex_val h2, hex_val h3, hex_val h4) of
        (Some a, Some b, Some c, Some d) \<Rightarrow>
          (if 4096 * a + 256 * b + 16 * c + d < 256
           then Some (char_of (4096 * a + 256 * b + 16 * c + d)) else None)
      | _ \<Rightarrow> None)"

definition simple_escape :: "char \<Rightarrow> char option" where
  "simple_escape e =
     map_of [(CHR 0x22, CHR 0x22), (CHR 0x5C, CHR 0x5C), (CHR ''/'', CHR ''/''),
             (CHR ''b'', CHR 0x08), (CHR ''f'', CHR 0x0C), (CHR ''n'', CHR 0x0A),
             (CHR ''r'', CHR 0x0D), (CHR ''t'', CHR 0x09)] e"

text \<open>The characters of a string literal after its opening quote, and what follows it.\<close>

fun lex_string :: "string \<Rightarrow> (string \<times> string) option" where
  "lex_string [] = None"
| "lex_string (c # cs) =
     (if c = CHR 0x22 then Some ([], cs)
      else if c = CHR 0x5C then
        (case cs of
           [] \<Rightarrow> None
         | e # cs1 \<Rightarrow>
             (if e = CHR ''u'' then
                (case cs1 of
                   h1 # h2 # h3 # h4 # cs2 \<Rightarrow>
                     (case unicode_escape h1 h2 h3 h4 of
                        None \<Rightarrow> None
                      | Some ch \<Rightarrow> map_option (\<lambda>r. (ch # fst r, snd r)) (lex_string cs2))
                 | _ \<Rightarrow> None)
              else
                (case simple_escape e of
                   None \<Rightarrow> None
                 | Some ch \<Rightarrow> map_option (\<lambda>r. (ch # fst r, snd r)) (lex_string cs1))))
      else if is_control c then None
      else map_option (\<lambda>r. (c # fst r, snd r)) (lex_string cs))"

text \<open>
  An integer literal: an optional minus, then \<open>0\<close> or digits that do not start with
  \<open>0\<close>. A fraction or an exponent after it is outside the model.
\<close>

definition lex_number :: "string \<Rightarrow> (int \<times> string) option" where
  "lex_number s =
     (let neg = (s \<noteq> [] \<and> hd s = CHR ''-'');
          body = (if neg then tl s else s);
          ds = takeWhile is_digit body;
          rest = dropWhile is_digit body
      in if ds = [] then None
         else if hd ds = CHR ''0'' \<and> tl ds \<noteq> [] then None
         else if rest \<noteq> [] \<and> hd rest \<in> {CHR ''.'', CHR ''e'', CHR ''E''} then None
         else Some (if neg then - digits_val ds else digits_val ds, rest))"

lemma lex_string_shorter: "lex_string cs = Some r \<Longrightarrow> length (snd r) < length cs"
proof (induction cs arbitrary: r rule: lex_string.induct)
  case 1
  then show ?case by simp
next
  case (2 c cs)
  then show ?case
    by (fastforce split: if_splits list.splits option.splits)
qed

lemma lex_number_shorter: "lex_number s = Some r \<Longrightarrow> length (snd r) < length s"
proof -
  assume a: "lex_number s = Some r"
  let ?body = "if s \<noteq> [] \<and> hd s = CHR ''-'' then tl s else s"
  from a have ne: "takeWhile is_digit ?body \<noteq> []" and r: "snd r = dropWhile is_digit ?body"
    by (auto simp: lex_number_def Let_def split: if_splits)
  have "length (takeWhile is_digit ?body) + length (dropWhile is_digit ?body) = length ?body"
    by (metis length_append takeWhile_dropWhile_id)
  with ne have "length (dropWhile is_digit ?body) < length ?body"
    by (cases "takeWhile is_digit ?body") auto
  moreover have "length ?body \<le> length s" by simp
  ultimately show ?thesis using r by simp
qed

function lex :: "string \<Rightarrow> token list option" where
  "lex [] = Some []"
| "lex (c # cs) =
     (if is_json_ws c then lex cs
      else if c = CHR ''{'' then map_option (Cons TLBrace) (lex cs)
      else if c = CHR ''}'' then map_option (Cons TRBrace) (lex cs)
      else if c = CHR ''['' then map_option (Cons TLBracket) (lex cs)
      else if c = CHR '']'' then map_option (Cons TRBracket) (lex cs)
      else if c = CHR '':'' then map_option (Cons TColon) (lex cs)
      else if c = CHR '','' then map_option (Cons TComma) (lex cs)
      else if c = CHR 0x22 then
        (case lex_string cs of
           None \<Rightarrow> None
         | Some r \<Rightarrow> map_option (Cons (TString (fst r))) (lex (snd r)))
      else if c = CHR ''t'' then
        (if take 3 cs = ''rue'' then map_option (Cons TTrue) (lex (drop 3 cs)) else None)
      else if c = CHR ''f'' then
        (if take 4 cs = ''alse'' then map_option (Cons TFalse) (lex (drop 4 cs)) else None)
      else if c = CHR ''n'' then
        (if take 3 cs = ''ull'' then map_option (Cons TNull) (lex (drop 3 cs)) else None)
      else if c = CHR ''-'' \<or> is_digit c then
        (case lex_number (c # cs) of
           None \<Rightarrow> None
         | Some r \<Rightarrow> map_option (Cons (TNumber (fst r))) (lex (snd r)))
      else None)"
  by pat_completeness auto
termination
  apply (relation "measure length")
  apply simp_all
  subgoal for c cs r by (drule lex_string_shorter) simp
  subgoal for c cs r by (drule lex_number_shorter) simp
  done

declare lex.simps [simp del]

subsection \<open>The parser, a machine with a stack of open containers\<close>

datatype frame = FArr "json list" | FObj "(string \<times> json) list" string

datatype pstate =
    SValue           \<comment> \<open>a value must follow\<close>
  | SFirst           \<comment> \<open>just after the opening bracket or brace\<close>
  | SNext            \<comment> \<open>after an element or a member\<close>
  | SKey             \<comment> \<open>after the comma of an object\<close>
  | SColon           \<comment> \<open>after the name of a member\<close>
  | SDone json       \<comment> \<open>the text's value is complete\<close>

text \<open>
  A complete value goes to the container that is open, or ends the text. A member is
  defined with CreateDataProperty, so a repeated name keeps the later value.
\<close>

fun deliver :: "frame list \<Rightarrow> json \<Rightarrow> frame list \<times> pstate" where
  "deliver [] v = ([], SDone v)"
| "deliver (FArr xs # fs) v = (FArr (xs @ [v]) # fs, SNext)"
| "deliver (FObj kvs k # fs) v = (FObj (obj_set kvs k v) k # fs, SNext)"

fun begin_value :: "frame list \<Rightarrow> token \<Rightarrow> (frame list \<times> pstate) option" where
  "begin_value fs (TString s) = Some (deliver fs (JStr s))"
| "begin_value fs (TNumber n) = Some (deliver fs (JNum n))"
| "begin_value fs TTrue = Some (deliver fs (JBool True))"
| "begin_value fs TFalse = Some (deliver fs (JBool False))"
| "begin_value fs TNull = Some (deliver fs JNull)"
| "begin_value fs TLBracket = Some (FArr [] # fs, SFirst)"
| "begin_value fs TLBrace = Some (FObj [] [] # fs, SFirst)"
| "begin_value fs t = None"

fun pstep :: "frame list \<times> pstate \<Rightarrow> token \<Rightarrow> (frame list \<times> pstate) option" where
  "pstep (fs, SValue) t = begin_value fs t"
| "pstep (FArr xs # fs, SFirst) t =
     (if t = TRBracket then Some (deliver fs (JArr xs)) else begin_value (FArr xs # fs) t)"
| "pstep (FObj kvs k # fs, SFirst) t =
     (case t of
        TRBrace \<Rightarrow> Some (deliver fs (JObj kvs))
      | TString k' \<Rightarrow> Some (FObj kvs k' # fs, SColon)
      | _ \<Rightarrow> None)"
| "pstep (FObj kvs k # fs, SKey) t =
     (case t of TString k' \<Rightarrow> Some (FObj kvs k' # fs, SColon) | _ \<Rightarrow> None)"
| "pstep (FObj kvs k # fs, SColon) t =
     (if t = TColon then Some (FObj kvs k # fs, SValue) else None)"
| "pstep (FArr xs # fs, SNext) t =
     (if t = TComma then Some (FArr xs # fs, SValue)
      else if t = TRBracket then Some (deliver fs (JArr xs))
      else None)"
| "pstep (FObj kvs k # fs, SNext) t =
     (if t = TComma then Some (FObj kvs k # fs, SKey)
      else if t = TRBrace then Some (deliver fs (JObj kvs))
      else None)"
| "pstep st t = None"

fun prun :: "frame list \<times> pstate \<Rightarrow> token list \<Rightarrow> (frame list \<times> pstate) option" where
  "prun st [] = Some st"
| "prun st (t # ts) = (case pstep st t of None \<Rightarrow> None | Some st' \<Rightarrow> prun st' ts)"

definition JSON_parse :: "string \<Rightarrow> json option" where
  "JSON_parse s =
     (case lex s of
        None \<Rightarrow> None
      | Some ts \<Rightarrow>
          (case prun ([], SValue) ts of
             Some ([], SDone v) \<Rightarrow> Some v
           | _ \<Rightarrow> None))"

subsection \<open>JSON.stringify\<close>

definition hex_digit :: "int \<Rightarrow> char" where
  "hex_digit d = ''0123456789abcdef'' ! nat (d mod 16)"

definition quote_char :: "char \<Rightarrow> string" where
  "quote_char c =
     (if c = CHR 0x22 then [CHR 0x5C, CHR 0x22]
      else if c = CHR 0x5C then [CHR 0x5C, CHR 0x5C]
      else if c = CHR 0x08 then [CHR 0x5C, CHR ''b'']
      else if c = CHR 0x0C then [CHR 0x5C, CHR ''f'']
      else if c = CHR 0x0A then [CHR 0x5C, CHR ''n'']
      else if c = CHR 0x0D then [CHR 0x5C, CHR ''r'']
      else if c = CHR 0x09 then [CHR 0x5C, CHR ''t'']
      else if is_control c then
        [CHR 0x5C, CHR ''u'', CHR ''0'', CHR ''0'',
         hex_digit (of_char c div 16), hex_digit (of_char c)]
      else [c])"

definition JSON_quote :: "string \<Rightarrow> string" where
  "JSON_quote s = CHR 0x22 # concat (map quote_char s) @ [CHR 0x22]"

fun join_comma :: "string list \<Rightarrow> string" where
  "join_comma [] = []"
| "join_comma [x] = x"
| "join_comma (x # y # ys) = x @ CHR '','' # join_comma (y # ys)"

fun JSON_stringify :: "json \<Rightarrow> string" where
  "JSON_stringify JNull = ''null''"
| "JSON_stringify (JBool b) = (if b then ''true'' else ''false'')"
| "JSON_stringify (JNum n) = show_int n"
| "JSON_stringify (JStr s) = JSON_quote s"
| "JSON_stringify (JArr xs) = CHR ''['' # join_comma (map JSON_stringify xs) @ '']''"
| "JSON_stringify (JObj kvs) =
     CHR ''{'' # join_comma (map (\<lambda>kv. JSON_quote (fst kv) @ CHR '':'' # JSON_stringify (snd kv)) kvs)
       @ ''}''"

section \<open>The helpers of the parser module\<close>

text \<open>\<open>tryParseJSON\<close>: the parsed value, or null for a non-string and for a text that fails.\<close>

fun tryParseJSON :: "json \<Rightarrow> json" where
  "tryParseJSON (JStr s) = (case JSON_parse s of Some v \<Rightarrow> v | None \<Rightarrow> JNull)"
| "tryParseJSON v = JNull"

text \<open>
  \<open>unwrapDeepJSONString\<close>: the loop runs at most \<open>maxDepth\<close> times; the first argument
  of \<open>unwrap_loop\<close> is the number of iterations that are left. The result is the pair
  \<open>{ parsed, text }\<close>.
\<close>

fun unwrap_loop :: "nat \<Rightarrow> string \<Rightarrow> json \<times> string" where
  "unwrap_loop 0 out = (JNull, out)"
| "unwrap_loop (Suc n) out =
     (case tryParseJSON (JStr out) of
        JStr s \<Rightarrow> unwrap_loop n s
      | parsed \<Rightarrow> (parsed, out))"

definition unwrapDeepJSONString :: "string \<Rightarrow> json \<times> string" where
  "unwrapDeepJSONString raw = unwrap_loop 5 raw"







text \<open>
  \<open>text.match(/\{[\s\S]*\}/)\<close> and \<open>text.match(/\[[\s\S]*\]/)\<close>: from the first opening
  character to the last closing character after it.
\<close>

definition greedy_slice :: "char \<Rightarrow> char \<Rightarrow> string \<Rightarrow> string option" where
  "greedy_slice opn cls s =
     (case dropWhile (\<lambda>c. c \<noteq> opn) s of
        [] \<Rightarrow> None
      | b # after \<Rightarrow>
          if cls \<in> set after then Some (b # rev (dropWhile (\<lambda>c. c \<noteq> cls) (rev after)))
          else None)"

definition objMatch :: "string \<Rightarrow> string option" where
  "objMatch s =
     (case greedy_slice (CHR ''{'') (CHR ''}'') s of
        Some m \<Rightarrow> Some m
      | None \<Rightarrow> greedy_slice (CHR ''['') (CHR '']'') s)"

definition extractFirstJSONObjectFromText :: "string \<Rightarrow> json" where
  "extractFirstJSONObjectFromText s =
     (let direct = tryParseJSON (JStr s) in
      if truthy direct \<and> is_object direct then direct
      else
        case objMatch s of
          Some m \<Rightarrow>
            (let maybe = tryParseJSON (JStr m) in
             if truthy maybe \<and> is_object maybe then maybe else JNull)
        | None \<Rightarrow> JNull)"

text \<open>
  \<open>String(x)\<close>. An array joins the strings of its elements with commas, null as the
  empty string. An object is \<open>[object Object]\<close>, unless it has an own property
  \<open>toString\<close>: a property of a parsed value is never a function, the conversion finds
  nothing to call and throws a TypeError.
\<close>

datatype js_exn = Exn (exn_name: string) (exn_message: string)

definition type_error :: js_exn where
  "type_error = Exn ''TypeError'' ''Cannot convert object to primitive value''"

fun join_results :: "(js_exn + string) list \<Rightarrow> js_exn + string" where
  "join_results [] = Inr []"
| "join_results [x] = x"
| "join_results (x # y # ys) =
     (case x of
        Inl e \<Rightarrow> Inl e
      | Inr a \<Rightarrow> (case join_results (y # ys) of Inl e \<Rightarrow> Inl e | Inr b \<Rightarrow> Inr (a @ CHR '','' # b)))"

fun js_String :: "json \<Rightarrow> js_exn + string" where
  "js_String JNull = Inr ''null''"
| "js_String (JBool b) = Inr (if b then ''true'' else ''false'')"
| "js_String (JNum n) = Inr (show_int n)"
| "js_String (JStr s) = Inr s"
| "js_String (JArr xs) =
     join_results (map (\<lambda>x. if x = JNull then Inr [] else js_String x) xs)"
| "js_String (JObj kvs) =
     (if obj_get kvs ''toString'' \<noteq> None then Inl type_error else Inr ''[object Object]'')"

section \<open>parseToolResponse\<close>

text \<open>The unwrap-then-rescue of one string, for \<open>result\<close> and for a document.\<close>

definition unwrap_then_rescue :: "string \<Rightarrow> json" where
  "unwrap_then_rescue s =
     (let (parsed, txt) = unwrapDeepJSONString s in
      if truthy parsed \<and> is_object parsed then parsed
      else extractFirstJSONObjectFromText txt)"

text \<open>
  The documents of one source: \<open>s?.document\<close> when it is an array, the one-element
  list of it when it is truthy, else none.
\<close>

definition source_docs :: "json \<Rightarrow> json list" where
  "source_docs s =
     (case (if s = JNull then None else get_prop s ''document'') of
        Some (JArr ds) \<Rightarrow> ds
      | Some d \<Rightarrow> if truthy d then [d] else []
      | None \<Rightarrow> [])"

text \<open>
  The two nested loops over the sources and their documents return at the first document
  that is an object or that is a string with a container in it; they run over the
  documents of all sources in order. Null means that the loops ended without a return.
\<close>

fun scan_docs :: "json list \<Rightarrow> json" where
  "scan_docs [] = JNull"
| "scan_docs (doc # docs) =
     (if doc = JNull then scan_docs docs
      else if is_object doc then doc
      else (case doc of
              JStr d \<Rightarrow>
                (let found = unwrap_then_rescue d in
                 if truthy found then found else scan_docs docs)
            | _ \<Rightarrow> scan_docs docs))"

definition scan_sources :: "json \<Rightarrow> json" where
  "scan_sources toolResp =
     scan_docs (concat (map source_docs
        (case get_prop toolResp ''sources'' of Some (JArr ss) \<Rightarrow> ss | _ \<Rightarrow> [])))"

text \<open>Steps 2 and 3: the sources, then the text of the response itself.\<close>

definition after_result :: "json \<Rightarrow> js_exn + json" where
  "after_result toolResp =
     (let found = scan_sources toolResp in
      if truthy found then Inr found
      else (case js_String toolResp of
              Inl e \<Rightarrow> Inl e
            | Inr s \<Rightarrow> Inr (extractFirstJSONObjectFromText s)))"

definition parseToolResponse :: "json \<Rightarrow> js_exn + json" where
  "parseToolResponse toolResp =
     (if toolResp = JNull then Inr JNull
      else case toolResp of
        JStr s \<Rightarrow> Inr (extractFirstJSONObjectFromText s)
      | _ \<Rightarrow>
        (case get_prop toolResp ''result'' of
           None \<Rightarrow> after_result toolResp
         | Some res \<Rightarrow>
             if res = JNull then after_result toolResp
             else (case js_String res of
                     Inl e \<Rightarrow> Inl e
                   | Inr str \<Rightarrow>
                       if trim str = [] then after_result toolResp
                       else (case res of
                               JStr r \<Rightarrow>
                                 (let found = unwrap_then_rescue r in
                                  if truthy found then Inr found else after_result toolResp)
                             | _ \<Rightarrow>
                                 if is_object res then Inr res else after_result toolResp))))"

section \<open>input2JSON and the router\<close>








section \<open>Values that JSON.stringify and JSON.parse take back and forth\<close>

text \<open>
  A value as \<open>JSON.parse\<close> builds it: the names of an object are distinct and stand in
  the order of enumeration, array indices first and ascending. \<open>can_append\<close> says that
  a name is new and that its place is the end.
\<close>

definition can_append :: "string list \<Rightarrow> string \<Rightarrow> bool" where
  "can_append ks k =
     (k \<notin> set ks
      \<and> (if is_array_index k
         then list_all (\<lambda>k'. is_array_index k' \<and> digits_val k' < digits_val k) ks
         else True))"

fun wf_keys :: "string list \<Rightarrow> string list \<Rightarrow> bool" where
  "wf_keys acc [] = True"
| "wf_keys acc (k # ks) = (can_append acc k \<and> wf_keys (acc @ [k]) ks)"

fun wf_json :: "json \<Rightarrow> bool" where
  "wf_json (JArr xs) = list_all wf_json xs"
| "wf_json (JObj kvs) = (wf_keys [] (map fst kvs) \<and> list_all (\<lambda>kv. wf_json (snd kv)) kvs)"
| "wf_json v = True"

text \<open>The tokens of the text that \<open>JSON.stringify\<close> writes for a value.\<close>

fun sep_tokens :: "token list list \<Rightarrow> token list" where
  "sep_tokens [] = []"
| "sep_tokens [x] = x"
| "sep_tokens (x # y # ys) = x @ TComma # sep_tokens (y # ys)"

fun tokens_of :: "json \<Rightarrow> token list" where
  "tokens_of JNull = [TNull]"
| "tokens_of (JBool b) = [if b then TTrue else TFalse]"
| "tokens_of (JNum n) = [TNumber n]"
| "tokens_of (JStr s) = [TString s]"
| "tokens_of (JArr xs) = TLBracket # sep_tokens (map tokens_of xs) @ [TRBracket]"
| "tokens_of (JObj kvs) =
     TLBrace # sep_tokens (map (\<lambda>kv. TString (fst kv) # TColon # tokens_of (snd kv)) kvs)
       @ [TRBrace]"

text \<open>
  One JSON-string-encoding of a value: the string that holds its text. The text of a
  string value is what \<open>unwrapDeepJSONString\<close> is given.
\<close>

definition encode_once :: "json \<Rightarrow> json" where
  "encode_once v = JStr (JSON_stringify v)"

text \<open>
  What may follow a number in a text without ending it early or late: no digit, no
  fraction, no exponent.
\<close>

definition num_safe :: "string \<Rightarrow> bool" where
  "num_safe r = (r = [] \<or> (\<not> is_digit (hd r) \<and> hd r \<notin> {CHR ''.'', CHR ''e'', CHR ''E''}))"


text \<open>The states of the parser in which a value may begin, with the stack below it.\<close>

definition vstart :: "frame list \<times> pstate \<Rightarrow> frame list \<Rightarrow> bool" where
  "vstart st fs = (st = (fs, SValue) \<or> (\<exists>xs fs'. fs = FArr xs # fs' \<and> st = (fs, SFirst)))"


text \<open>
  The text that \<open>n\<close> applications of \<open>JSON.stringify\<close> give, for \<open>n\<close> from 1 on:
  the first to the value, each later one to the text before it.
\<close>

definition encode_times :: "nat \<Rightarrow> json \<Rightarrow> string" where
  "encode_times n C = JSON_stringify ((encode_once ^^ (n - 1)) C)"



text \<open>
  A record with a usable identifier: a truthy primitive \<open>Bookmark_ID\<close>, the names in
  the order of enumeration. \<open>id_of\<close> is that identifier.
\<close>

definition identified :: "(string \<times> json) list \<Rightarrow> bool" where
  "identified it =
     (wf_keys [] (map fst it)
      \<and> (case obj_get it ''Bookmark_ID'' of Some v \<Rightarrow> truthy v \<and> \<not> is_object v | None \<Rightarrow> False))"

definition id_of :: "(string \<times> json) list \<Rightarrow> json" where
  "id_of it = (case obj_get it ''Bookmark_ID'' of Some v \<Rightarrow> v | None \<Rightarrow> JNull)"

text \<open>
  A value in which no object has an own property \<open>toString\<close>: \<open>String\<close> of it, and
  of every value in it, is a string.
\<close>

fun no_toString :: "json \<Rightarrow> bool" where
  "no_toString (JArr xs) = list_all no_toString xs"
| "no_toString (JObj kvs) =
     (obj_get kvs ''toString'' = None \<and> list_all (\<lambda>kv. no_toString (snd kv)) kvs)"
| "no_toString v = True"


section \<open>Properties of normalizeKarakeepPayload\<close>

subsection \<open>Own properties after an assignment\<close>
lemma obj_get_append:
  "obj_get (kvs @ [(k, v)]) k' =
     (case obj_get kvs k' of Some x \<Rightarrow> Some x | None \<Rightarrow> if k = k' then Some v else None)"
  by (induction kvs) auto

lemma obj_get_replace:
  "obj_get (obj_replace kvs k v) k' =
     (if k' = k \<and> obj_get kvs k \<noteq> None then Some v else obj_get kvs k')"
  by (induction kvs) (auto split: if_splits)

lemma obj_get_insert_index:
  "obj_get kvs k = None \<Longrightarrow>
   obj_get (obj_insert_index kvs k v) k' = (if k' = k then Some v else obj_get kvs k')"
  by (induction kvs) (auto split: if_splits)

lemma obj_get_set:
  "obj_get (obj_set kvs k v) k' = (if k' = k then Some v else obj_get kvs k')"
  by (auto simp: obj_set_def obj_get_replace obj_get_insert_index obj_get_append
           split: option.splits)

lemma obj_get_None_iff: "obj_get kvs k = None \<longleftrightarrow> k \<notin> fst ` set kvs"
  by (induction kvs) (auto split: if_splits)

lemma obj_get_copy_props:
  "distinct (map fst src) \<Longrightarrow>
   obj_get (copy_props t src) k =
     (case obj_get src k of Some v \<Rightarrow> Some v | None \<Rightarrow> obj_get t k)"
proof (induction src arbitrary: t)
  case Nil
  then show ?case by (simp add: copy_props_def)
next
  case (Cons kv src)
  obtain k0 v0 where kv: "kv = (k0, v0)" by (cases kv)
  from Cons.prems kv have d: "distinct (map fst src)" and n: "obj_get src k0 = None"
    by (auto simp: obj_get_None_iff)
  have "copy_props t (kv # src) = copy_props (obj_set t k0 v0) src"
    by (simp add: copy_props_def kv)
  then show ?case using Cons.IH [OF d, of "obj_set t k0 v0"] n
    by (auto simp: kv obj_get_set split: option.splits)
qed







lemma obj_get_spread2:
  "distinct (map fst a) \<Longrightarrow> distinct (map fst b) \<Longrightarrow>
   obj_get (spread2 a b) k = (case obj_get b k of Some v \<Rightarrow> Some v | None \<Rightarrow> obj_get a k)"
  by (simp add: spread2_def obj_get_copy_props split: option.splits)




subsection \<open>The worked example\<close>

text \<open>
  Claim C1. For the input
  \<open>{"items":[{"Bookmark_ID":"1","Title":"A"},{"description":"d"},{"Bookmark_ID":"2","Title":"B"}],
  "next_page_token":"5"}\<close> normalizeKarakeepPayload returns exactly
  \<open>{"items":[{"Bookmark_ID":"1","Title":"A","description":"d"},{"Bookmark_ID":"2","Title":"B"}],
  "nextCursor":"5","hasMore":true}\<close>: the fragment without identifier is folded into the
  record before it, the items keep the order of first occurrence, and
  \<open>next_page_token\<close> becomes \<open>nextCursor\<close> with \<open>hasMore\<close> inferred true.
\<close>

theorem normalize_example_1:
  "normalizeKarakeepPayload
     (JObj [(''items'', JArr
               [JObj [(''Bookmark_ID'', JStr ''1''), (''Title'', JStr ''A'')],
                JObj [(''description'', JStr ''d'')],
                JObj [(''Bookmark_ID'', JStr ''2''), (''Title'', JStr ''B'')]]),
            (''next_page_token'', JStr ''5'')])
   = JObj [(''items'', JArr
              [JObj [(''Bookmark_ID'', JStr ''1''), (''Title'', JStr ''A''),
                     (''description'', JStr ''d'')],
               JObj [(''Bookmark_ID'', JStr ''2''), (''Title'', JStr ''B'')]]),
           (''nextCursor'', JStr ''5''), (''hasMore'', JBool True)]"
  by code_simp

theorem normalize_example_1_witness:
  "get_prop
     (normalizeKarakeepPayload
        (JObj [(''items'', JArr
                  [JObj [(''Bookmark_ID'', JStr ''1''), (''Title'', JStr ''A'')],
                   JObj [(''description'', JStr ''d'')],
                   JObj [(''Bookmark_ID'', JStr ''2''), (''Title'', JStr ''B'')]]),
               (''next_page_token'', JStr ''5'')]))
     ''nextCursor'' = Some (JStr ''5'')"
  unfolding normalize_example_1 by simp

subsection \<open>The canonical shape\<close>

lemma trim_Nil [simp]: "trim [] = []"
  by (simp add: trim_def)

lemma is_token_trim: "is_token t \<Longrightarrow> \<exists>s. t = Some (JStr s) \<and> trim s \<noteq> []"
  by (cases t rule: is_token.cases) auto

lemma find_token_Some: "find_token cands = Some s \<Longrightarrow> trim s \<noteq> []"
proof -
  assume a: "find_token cands = Some s"
  then obtain t where f: "find is_token cands = Some t" and t: "t = Some (JStr s)"
    by (auto simp: find_token_def split: option.splits json.splits)
  from f have "is_token t" by (auto simp: find_Some_iff)
  with t show ?thesis by simp
qed

lemma find_token_nonempty: "find_token cands = Some s \<Longrightarrow> s \<noteq> []"
  using find_token_Some by fastforce


text \<open>
  Claim C2. For every input, normalizeKarakeepPayload returns the canonical shape
  \<open>{ items, nextCursor, hasMore }\<close>, with empty items, null cursor and \<open>hasMore = false\<close>
  for an input that is not an object. \<open>nextCursor\<close> is null or a non-empty string, never
  the empty string. \<open>hasMore\<close> is the explicit boolean of the input when there is one
  (\<open>hasMore\<close> before \<open>has_more\<close>); with no explicit boolean it is true exactly when
  \<open>nextCursor\<close> is a non-empty string, so it is never true with a null cursor and no
  override.
\<close>

theorem normalize_canonical_shape:
  "\<exists>its c h.
      normalizeKarakeepPayload raw =
        JObj [(''items'', JArr its), (''nextCursor'', c), (''hasMore'', JBool h)]
      \<and> (c = JNull \<or> (\<exists>s. c = JStr s \<and> s \<noteq> []))
      \<and> h = (case explicit_hasMore raw of Some b \<Rightarrow> b | None \<Rightarrow> c \<noteq> JNull)
      \<and> (\<not> truthy raw \<or> \<not> is_object raw \<longrightarrow> its = [] \<and> c = JNull \<and> h = False)"
proof (cases "\<not> truthy raw \<or> \<not> is_object raw")
  case True
  then have "get_prop raw ''hasMore'' = None" "get_prop raw ''has_more'' = None"
    by (cases raw; simp)+
  then have "explicit_hasMore raw = None" by (simp add: explicit_hasMore_def)
  with True show ?thesis by (simp add: normalizeKarakeepPayload_def)
next
  case False
  let ?tok = "find_token
              [get_prop raw ''nextCursor'', get_prop raw ''next_cursor'',
               get_prop raw ''nextPageToken'', get_prop raw ''next_page_token'',
               get_prop raw ''cursor'']"
  show ?thesis
  proof (cases ?tok)
    case None
    with False show ?thesis
      by (simp add: normalizeKarakeepPayload_def explicit_hasMore_def Let_def
               split: option.splits json.splits)
  next
    case (Some s)
    then have "s \<noteq> []" "trim s \<noteq> []"
      using find_token_nonempty find_token_Some by blast+
    with False Some show ?thesis
      by (simp add: normalizeKarakeepPayload_def explicit_hasMore_def Let_def
               split: option.splits json.splits)
  qed
qed


theorem normalize_canonical_shape_witness:
  "\<not> is_object (JStr ''oops'') \<and>
   normalizeKarakeepPayload (JStr ''oops'') =
     JObj [(''items'', JArr []), (''nextCursor'', JNull), (''hasMore'', JBool False)]"
  using normalize_canonical_shape [of "JStr ''oops''"] by auto

subsection \<open>Merging two fragments of one identifier\<close>















subsection \<open>Placeholder identifiers\<close>

text \<open>
  Claim C7. Each record lacking an identifier gets a placeholder identifier of its own, so
  that no two records without identifier are merged with one another: each yields its own
  entry of the output items. The placeholder is \<open>tmp_\<close> followed by the size of the map;
  it is not kept apart from the identifiers of the input. On the rows below, the record
  \<open>tmp_1\<close> makes the size 1, the first record with a null identifier is keyed \<open>tmp_1\<close>
  and merged into it, the size stays 1, and the second one is keyed \<open>tmp_1\<close> again: the
  three rows come out as one item.
\<close>

theorem placeholder_collision:
  "normalizeKarakeepPayload
     (JObj [(''items'', JArr
               [JObj [(''Bookmark_ID'', JStr ''tmp_1''), (''Title'', JStr ''A'')],
                JObj [(''Bookmark_ID'', JNull), (''Title'', JStr ''B'')],
                JObj [(''Bookmark_ID'', JNull), (''Title'', JStr ''C'')]])])
   = JObj [(''items'', JArr [JObj [(''Bookmark_ID'', JNull), (''Title'', JStr ''C'')]]),
           (''nextCursor'', JNull), (''hasMore'', JBool False)]"
  by code_simp

theorem placeholder_collision_witness:
  "get_prop
     (normalizeKarakeepPayload
        (JObj [(''items'', JArr
                  [JObj [(''Bookmark_ID'', JStr ''tmp_1''), (''Title'', JStr ''A'')],
                   JObj [(''Bookmark_ID'', JNull), (''Title'', JStr ''B'')],
                   JObj [(''Bookmark_ID'', JNull), (''Title'', JStr ''C'')]])]))
     ''items'' = Some (JArr [JObj [(''Bookmark_ID'', JNull), (''Title'', JStr ''C'')]])"
  unfolding placeholder_collision by simp

subsection \<open>Normalizing twice\<close>

text \<open>
  Claim C9. Coalescing is idempotent: normalizing an already normalized page result gives
  the same items list. The page result below is itself a result of
  normalizeKarakeepPayload (the first equation); normalized again, its record with the
  null identifier is keyed \<open>tmp_1\<close>, the identifier of the record before it, and the two
  items become one.
\<close>

theorem normalize_twice_differs:
  "normalizeKarakeepPayload
     (JObj [(''items'', JArr
               [JObj [(''Bookmark_ID'', JStr ''tmp_1''), (''a'', JNum 1)],
                JObj [(''Bookmark_ID'', JStr ''tmp_2'')],
                JObj [(''Bookmark_ID'', JNull)]])])
   = JObj [(''items'', JArr
              [JObj [(''Bookmark_ID'', JStr ''tmp_1''), (''a'', JNum 1)],
               JObj [(''Bookmark_ID'', JNull)]]),
           (''nextCursor'', JNull), (''hasMore'', JBool False)]
   \<and>
   normalizeKarakeepPayload
     (JObj [(''items'', JArr
              [JObj [(''Bookmark_ID'', JStr ''tmp_1''), (''a'', JNum 1)],
               JObj [(''Bookmark_ID'', JNull)]]),
            (''nextCursor'', JNull), (''hasMore'', JBool False)])
   = JObj [(''items'', JArr [JObj [(''Bookmark_ID'', JNull), (''a'', JNum 1)]]),
           (''nextCursor'', JNull), (''hasMore'', JBool False)]"
  by code_simp

theorem normalize_twice_differs_witness:
  "get_prop
     (normalizeKarakeepPayload
        (normalizeKarakeepPayload
           (JObj [(''items'', JArr
                     [JObj [(''Bookmark_ID'', JStr ''tmp_1''), (''a'', JNum 1)],
                      JObj [(''Bookmark_ID'', JStr ''tmp_2'')],
                      JObj [(''Bookmark_ID'', JNull)]])])))
     ''items'' = Some (JArr [JObj [(''Bookmark_ID'', JNull), (''a'', JNum 1)]])"
  using normalize_twice_differs by simp

section \<open>Properties of parseKVBlocks\<close>

text \<open>
  Claim C8, as the code has it. For the free text
  \<open>"Title: Hello\nTags: a, b, c\nNext cursor: '7'"\<close> parseKVBlocks returns
  \<open>{"items":[{"Title":"Hello"},{"Tags":["a","b","c"]}],"cursor":"7","hasMore":true}\<close>:
  a key/value line without indent starts a record of its own when the current record has
  a field already, so the two lines give two records; the keys keep their case; the tags
  are split on commas into trimmed strings; the next-cursor line, its quotes removed, sets
  the cursor \<open>"7"\<close> with \<open>hasMore\<close> true.
\<close>

theorem parseKVBlocks_example_4:
  "parseKVBlocks example_4_text =
     Some (JObj [(''items'', JArr [JObj [(''Title'', JStr ''Hello'')],
                                  JObj [(''Tags'', JArr [JStr ''a'', JStr ''b'', JStr ''c''])]]),
                 (''cursor'', JStr ''7''), (''hasMore'', JBool True)])"
  by code_simp

theorem parseKVBlocks_example_4_witness:
  "map_option (\<lambda>r. get_prop r ''cursor'') (parseKVBlocks example_4_text)
     = Some (Some (JStr ''7''))"
  unfolding parseKVBlocks_example_4 by simp

text \<open>
  The result the specification's fourth example states, one record with the keys in lower
  case, is not what the code returns.
\<close>

theorem parseKVBlocks_example_4_counterexample:
  "parseKVBlocks example_4_text \<noteq>
     Some (JObj [(''items'', JArr [JObj [(''title'', JStr ''Hello''),
                                        (''tags'', JArr [JStr ''a'', JStr ''b'', JStr ''c''])]]),
                 (''cursor'', JStr ''7''), (''hasMore'', JBool True)])"
  by code_simp

section \<open>JSON.parse after JSON.stringify\<close>

subsection \<open>Numerals\<close>

lemma digit_char_props:
  "is_digit (digit_char d) \<and> digit_val (digit_char d) = int (d mod 10)
   \<and> (digit_char d = CHR ''0'' \<longleftrightarrow> d mod 10 = 0)"
proof -
  have "d mod 10 < 10" by simp
  then have "d mod 10 \<in> {0, 1, 2, 3, 4, 5, 6, 7, 8, 9}" by (simp, arith)
  then show ?thesis
    unfolding digit_char_def is_digit_def digit_val_def by (elim insertE emptyE) simp_all
qed

lemma show_nat_digits: "list_all is_digit (show_nat n)"
  by (induction n rule: show_nat.induct) (subst show_nat.simps, simp add: digit_char_props)

lemma show_nat_nonempty: "show_nat n \<noteq> []"
  by (subst show_nat.simps) simp

lemma digits_val_snoc: "digits_val (ds @ [c]) = 10 * digits_val ds + digit_val c"
  by (simp add: digits_val_def)

lemma digits_val_show_nat: "digits_val (show_nat n) = int n"
proof (induction n rule: show_nat.induct)
  case (1 n)
  show ?case
  proof (cases "n < 10")
    case True
    then show ?thesis
      by (subst show_nat.simps) (simp add: digits_val_def digit_char_props)
  next
    case False
    then have "digits_val (show_nat n) = 10 * int (n div 10) + int (n mod 10)"
      using 1 by (subst show_nat.simps) (simp add: digits_val_snoc digit_char_props)
    then show ?thesis by (simp add: zdiv_int zmod_int)
  qed
qed

lemma hd_show_nat: "0 < n \<Longrightarrow> hd (show_nat n) \<noteq> CHR ''0''"
proof (induction n rule: show_nat.induct)
  case (1 n)
  show ?case
  proof (cases "n < 10")
    case True
    with 1(2) show ?thesis
      by (subst show_nat.simps) (simp add: digit_char_props)
  next
    case False
    then have "0 < n div 10" by simp
    with 1 False have "hd (show_nat (n div 10)) \<noteq> CHR ''0''" by simp
    with False show ?thesis
      by (subst show_nat.simps) (simp add: show_nat_nonempty)
  qed
qed

lemma tl_show_nat_0: "tl (show_nat 0) = []"
  by (subst show_nat.simps) simp

lemma takeWhile_digits:
  "list_all is_digit ds \<Longrightarrow> num_safe r \<Longrightarrow>
   takeWhile is_digit (ds @ r) = ds \<and> dropWhile is_digit (ds @ r) = r"
  by (induction ds) (auto simp: num_safe_def list_all_iff takeWhile_eq_Nil_iff dropWhile_eq_self_iff
      intro: hd_in_set)

lemma minus_not_digit: "\<not> is_digit (CHR ''-'')"
  by (simp add: is_digit_def)

lemma lex_number_show_nat:
  assumes "num_safe r"
  shows "lex_number (show_nat n @ r) = Some (int n, r)"
proof -
  obtain c cs where sn: "show_nat n = c # cs"
    using show_nat_nonempty by (cases "show_nat n") auto
  have dg: "list_all is_digit (c # cs)" using show_nat_digits [of n] sn by simp
  then have c: "c \<noteq> CHR ''-''" using minus_not_digit by auto
  have tk: "takeWhile is_digit (c # cs @ r) = c # cs" "dropWhile is_digit (c # cs @ r) = r"
    using takeWhile_digits [OF dg assms] by simp_all
  have lz: "\<not> (c = CHR ''0'' \<and> cs \<noteq> [])"
  proof (cases "n = 0")
    case True
    then show ?thesis using tl_show_nat_0 sn by auto
  next
    case False
    then show ?thesis using hd_show_nat [of n] sn by auto
  qed
  have dv: "digits_val (c # cs) = int n" using digits_val_show_nat [of n] sn by simp
  show ?thesis
    using assms c lz dv
    by (auto simp add: lex_number_def sn tk Let_def num_safe_def
             simp del: takeWhile.simps dropWhile.simps)
qed

lemma lex_number_show_int:
  assumes "num_safe r"
  shows "lex_number (show_int i @ r) = Some (i, r)"
proof (cases "i < 0")
  case False
  then show ?thesis using lex_number_show_nat [OF assms, of "nat i"] by (simp add: show_int_def)
next
  case True
  let ?n = "nat (- i)"
  obtain c cs where sn: "show_nat ?n = c # cs"
    using show_nat_nonempty by (cases "show_nat ?n") auto
  have dg: "list_all is_digit (c # cs)" using show_nat_digits [of ?n] sn by simp
  have tk: "takeWhile is_digit (c # cs @ r) = c # cs" "dropWhile is_digit (c # cs @ r) = r"
    using takeWhile_digits [OF dg assms] by simp_all
  have "0 < ?n" using True by simp
  then have lz: "c \<noteq> CHR ''0''" using hd_show_nat [of ?n] sn by auto
  have dv: "digits_val (c # cs) = int ?n" using digits_val_show_nat [of ?n] sn by simp
  show ?thesis
    using assms True lz dv
    by (auto simp add: lex_number_def show_int_def sn tk Let_def num_safe_def
             simp del: takeWhile.simps dropWhile.simps)
qed

subsection \<open>String literals\<close>

lemma hex_val_hex_digit: "hex_val (hex_digit d) = Some (d mod 16)"
proof -
  have "0 \<le> d mod 16" "d mod 16 < 16" by simp_all
  then have "d mod 16 \<in> {0, 1, 2, 3, 4, 5, 6, 7, 8, 9, 10, 11, 12, 13, 14, 15}" by (simp, arith)
  then show ?thesis
    unfolding hex_val_def hex_digit_def by (elim insertE emptyE) simp_all
qed

lemma hex_val_zero: "hex_val (CHR ''0'') = Some 0"
  by (simp add: hex_val_def)

lemma of_char_int_bounds: "0 \<le> (of_char c :: int)" "(of_char c :: int) < 256"
proof -
  have e: "(of_char c :: int) = int (of_char c)" by (simp add: of_nat_of_char)
  show "0 \<le> (of_char c :: int)" unfolding e by simp
  show "(of_char c :: int) < 256" unfolding e by simp
qed

lemma unicode_escape_char:
  "unicode_escape (CHR ''0'') (CHR ''0'') (hex_digit (of_char c div 16)) (hex_digit (of_char c)) = Some c"
proof -
  let ?k = "of_char c :: int"
  have b: "0 \<le> ?k" "?k < 256" by (rule of_char_int_bounds)+
  then have d: "(?k div 16) mod 16 = ?k div 16" by simp
  have "16 * (?k div 16) + ?k mod 16 = ?k" by simp
  then show ?thesis using b
    by (simp add: unicode_escape_def hex_val_hex_digit hex_val_zero d)
qed

lemma lex_string_quote_char:
  "lex_string (quote_char c @ r) = map_option (\<lambda>p. (c # fst p, snd p)) (lex_string r)"
proof -
  consider (q) "c = CHR 0x22" | (b) "c = CHR 0x5C" | (s) "c \<in> {CHR 0x08, CHR 0x0C, CHR 0x0A, CHR 0x0D, CHR 0x09}"
    | (u) "c \<notin> {CHR 0x22, CHR 0x5C, CHR 0x08, CHR 0x0C, CHR 0x0A, CHR 0x0D, CHR 0x09}" "is_control c"
    | (n) "c \<notin> {CHR 0x22, CHR 0x5C, CHR 0x08, CHR 0x0C, CHR 0x0A, CHR 0x0D, CHR 0x09}" "\<not> is_control c"
    by blast
  then show ?thesis
  proof cases
    case q
    then show ?thesis by (simp add: quote_char_def simple_escape_def)
  next
    case b
    then show ?thesis by (simp add: quote_char_def simple_escape_def)
  next
    case s
    then show ?thesis by (auto simp: quote_char_def simple_escape_def)
  next
    case u
    then show ?thesis by (simp add: quote_char_def unicode_escape_char)
  next
    case n
    then show ?thesis by (simp add: quote_char_def)
  qed
qed

lemma lex_string_quoted:
  "lex_string (concat (map quote_char s) @ CHR 0x22 # r) = Some (s, r)"
  by (induction s) (simp_all add: lex_string_quote_char del: lex_string.simps, simp)

subsection \<open>The lexer on the text of a value\<close>

lemma lex_punct:
  "lex (CHR ''{'' # s) = map_option (Cons TLBrace) (lex s)"
  "lex (CHR ''}'' # s) = map_option (Cons TRBrace) (lex s)"
  "lex (CHR ''['' # s) = map_option (Cons TLBracket) (lex s)"
  "lex (CHR '']'' # s) = map_option (Cons TRBracket) (lex s)"
  "lex (CHR '':'' # s) = map_option (Cons TColon) (lex s)"
  "lex (CHR '','' # s) = map_option (Cons TComma) (lex s)"
  by (simp_all add: lex.simps is_json_ws_def)

lemma lex_keyword:
  "lex (''null'' @ s) = map_option (Cons TNull) (lex s)"
  "lex (''true'' @ s) = map_option (Cons TTrue) (lex s)"
  "lex (''false'' @ s) = map_option (Cons TFalse) (lex s)"
  by (simp_all add: lex.simps is_json_ws_def)

lemma lex_quoted: "lex (JSON_quote str @ s) = map_option (Cons (TString str)) (lex s)"
  by (simp add: JSON_quote_def lex.simps is_json_ws_def lex_string_quoted)

lemma digit_not_special:
  assumes "is_digit c \<or> c = CHR ''-''"
  shows "\<not> is_json_ws c" "c \<notin> {CHR ''{'', CHR ''}'', CHR ''['', CHR '']'', CHR '':'', CHR '','',
           CHR 0x22, CHR ''t'', CHR ''f'', CHR ''n''}"
  using assms by (auto simp: is_digit_def is_json_ws_def)

lemma lex_int:
  assumes "num_safe s"
  shows "lex (show_int i @ s) = map_option (Cons (TNumber i)) (lex s)"
proof -
  obtain c cs where sc: "show_int i @ s = c # cs" and c: "is_digit c \<or> c = CHR ''-''"
  proof (cases "i < 0")
    case True
    then show ?thesis using that by (simp add: show_int_def)
  next
    case False
    obtain d ds where "show_nat (nat i) = d # ds"
      using show_nat_nonempty by (cases "show_nat (nat i)") auto
    moreover from this have "is_digit d" using show_nat_digits [of "nat i"] by simp
    ultimately show ?thesis using that False by (simp add: show_int_def)
  qed
  have n: "lex_number (c # cs) = Some (i, s)"
    using lex_number_show_int [OF assms, of i] sc by simp
  show ?thesis
    unfolding sc using digit_not_special [OF c] c n
    by (auto simp add: lex.simps)
qed

lemma num_safe_punct:
  "num_safe []" "num_safe (CHR '','' # s)" "num_safe (CHR '']'' # s)" "num_safe (CHR ''}'' # s)"
  by (simp_all add: num_safe_def is_digit_def)

lemma map_option_append_Nil: "map_option ((@) []) x = x"
  by (cases x) simp_all

lemma map_option_sep:
  "map_option ((@) a) (map_option (Cons t) (map_option ((@) b) x)) = map_option ((@) (a @ t # b)) x"
  by (cases x) simp_all

lemma lex_join:
  assumes el: "\<And>x r. x \<in> set xs \<Longrightarrow> num_safe r \<Longrightarrow> lex (f x @ r) = map_option ((@) (g x)) (lex r)"
    and r: "num_safe r"
  shows "lex (join_comma (map f xs) @ r) = map_option ((@) (sep_tokens (map g xs))) (lex r)"
  using el
proof (induction xs rule: induct_list012)
  case 1
  then show ?case by (cases "lex r") simp_all
next
  case (2 x)
  then show ?case using r by simp
next
  case (3 x y zs)
  have "lex (join_comma (map f (x # y # zs)) @ r)
        = lex (f x @ CHR '','' # join_comma (map f (y # zs)) @ r)" by simp
  also have "\<dots> = map_option ((@) (g x)) (lex (CHR '','' # join_comma (map f (y # zs)) @ r))"
    using "3.prems" by (simp add: num_safe_punct)
  also have "\<dots> = map_option ((@) (g x))
                     (map_option (Cons TComma) (lex (join_comma (map f (y # zs)) @ r)))"
    by (simp only: lex_punct)
  also have "lex (join_comma (map f (y # zs)) @ r)
             = map_option ((@) (sep_tokens (map g (y # zs)))) (lex r)"
    using "3.IH"(2) "3.prems" by simp
  finally show ?case by (cases "lex r") simp_all
qed

lemma lex_stringify:
  "num_safe r \<Longrightarrow> lex (JSON_stringify v @ r) = map_option ((@) (tokens_of v)) (lex r)"
proof (induction v arbitrary: r)
  case JNull
  then show ?case using lex_keyword(1) [of r] by (cases "lex r") simp_all
next
  case (JBool b)
  then show ?case using lex_keyword(2) [of r] lex_keyword(3) [of r] by (cases "lex r") simp_all
next
  case (JNum n)
  then show ?case using lex_int [of r n] by (cases "lex r") simp_all
next
  case (JStr s)
  then show ?case using lex_quoted [of s r] by (cases "lex r") simp_all
next
  case (JArr xs)
  have "lex (JSON_stringify (JArr xs) @ r)
        = map_option (Cons TLBracket) (lex (join_comma (map JSON_stringify xs) @ CHR '']'' # r))"
    by (simp add: lex_punct)
  also have "lex (join_comma (map JSON_stringify xs) @ CHR '']'' # r)
             = map_option ((@) (sep_tokens (map tokens_of xs))) (lex (CHR '']'' # r))"
    by (rule lex_join) (simp_all add: JArr.IH num_safe_punct)
  finally show ?case by (cases "lex r") (simp_all add: lex_punct)
next
  case (JObj kvs)
  let ?f = "\<lambda>kv. JSON_quote (fst kv) @ CHR '':'' # JSON_stringify (snd kv)"
  let ?g = "\<lambda>kv. TString (fst kv) # TColon # tokens_of (snd kv)"
  have el: "lex (?f kv @ r') = map_option ((@) (?g kv)) (lex r')"
    if "kv \<in> set kvs" "num_safe r'" for kv r'
  proof -
    have "snd kv \<in> Basic_BNFs.snds kv" by (cases kv) simp
    then have "lex (JSON_stringify (snd kv) @ r') = map_option ((@) (tokens_of (snd kv))) (lex r')"
      using JObj.IH that by blast
    then show ?thesis by (cases "lex r'") (simp_all add: lex_quoted lex_punct)
  qed
  have "lex (JSON_stringify (JObj kvs) @ r)
        = map_option (Cons TLBrace) (lex (join_comma (map ?f kvs) @ CHR ''}'' # r))"
    by (simp add: lex_punct)
  also have "lex (join_comma (map ?f kvs) @ CHR ''}'' # r)
             = map_option ((@) (sep_tokens (map ?g kvs))) (lex (CHR ''}'' # r))"
  proof (rule lex_join)
    show "lex (?f kv @ r') = map_option ((@) (?g kv)) (lex r')"
      if "kv \<in> set kvs" "num_safe r'" for kv r'
      using el that by blast
  qed (simp add: num_safe_punct)
  finally show ?case by (cases "lex r") (simp_all add: lex_punct)
qed

subsection \<open>The parser on the tokens of a value\<close>

lemma prun_append:
  "prun st (a @ b) = (case prun st a of None \<Rightarrow> None | Some st' \<Rightarrow> prun st' b)"
  by (induction a arbitrary: st) (auto split: option.splits)

lemma insert_index_append:
  "list_all (\<lambda>k'. is_array_index k' \<and> digits_val k' < digits_val k) (map fst acc) \<Longrightarrow>
   obj_insert_index acc k v = acc @ [(k, v)]"
  by (induction acc) auto

lemma obj_set_append: "can_append (map fst acc) k \<Longrightarrow> obj_set acc k v = acc @ [(k, v)]"
  by (auto simp: can_append_def obj_set_def obj_get_None_iff insert_index_append
           split: if_splits)

lemma vstart_simps: "vstart (fs, SValue) fs" "vstart (FArr xs # fs, SFirst) (FArr xs # fs)"
  by (simp_all add: vstart_def)

lemma pstep_vstart:
  "vstart st fs \<Longrightarrow> t \<noteq> TRBracket \<Longrightarrow> pstep st t = begin_value fs t"
  by (auto simp: vstart_def)

lemma prun_elems:
  assumes el: "\<And>x st fs. x \<in> set xs \<Longrightarrow> vstart st fs \<Longrightarrow> prun st (tokens_of x) = Some (deliver fs x)"
  shows "xs \<noteq> [] \<Longrightarrow> vstart st (FArr acc # fs) \<Longrightarrow>
         prun st (sep_tokens (map tokens_of xs) @ [TRBracket]) = Some (deliver fs (JArr (acc @ xs)))"
  using el
proof (induction xs arbitrary: acc st rule: induct_list012)
  case 1
  then show ?case by simp
next
  case (2 x)
  then have "prun st (tokens_of x) = Some (deliver (FArr acc # fs) x)" by simp
  then show ?case by (simp add: prun_append)
next
  case (3 x y zs)
  have x: "prun st (tokens_of x) = Some (FArr (acc @ [x]) # fs, SNext)"
    using "3.prems"(3) [of x st "FArr acc # fs"] "3.prems"(2) by simp
  have "prun (FArr (acc @ [x]) # fs, SValue) (sep_tokens (map tokens_of (y # zs)) @ [TRBracket])
        = Some (deliver fs (JArr ((acc @ [x]) @ y # zs)))"
    by (rule "3.IH"(2)) (simp_all add: vstart_simps "3.prems"(3))
  then show ?case using x by (simp add: prun_append)
qed

lemma pstep_key:
  "s = SFirst \<or> s = SKey \<Longrightarrow> pstep (FObj acc k0 # fs, s) (TString k) = Some (FObj acc k # fs, SColon)"
  by auto

lemma prun_members:
  assumes el: "\<And>kv st fs. kv \<in> set kvs \<Longrightarrow> vstart st fs \<Longrightarrow>
                 prun st (tokens_of (snd kv)) = Some (deliver fs (snd kv))"
  shows "kvs \<noteq> [] \<Longrightarrow> wf_keys (map fst acc) (map fst kvs) \<Longrightarrow> s = SFirst \<or> s = SKey \<Longrightarrow>
         prun (FObj acc k0 # fs, s)
           (sep_tokens (map (\<lambda>kv. TString (fst kv) # TColon # tokens_of (snd kv)) kvs) @ [TRBrace])
         = Some (deliver fs (JObj (acc @ kvs)))"
  using el
proof (induction kvs arbitrary: acc s k0 rule: induct_list012)
  case 1
  then show ?case by simp
next
  case (2 kv)
  have ca: "can_append (map fst acc) (fst kv)" using "2.prems"(2) by simp
  have v: "prun (FObj acc (fst kv) # fs, SValue) (tokens_of (snd kv))
           = Some (FObj (acc @ [kv]) (fst kv) # fs, SNext)"
    using "2.prems"(4) [of kv "(FObj acc (fst kv) # fs, SValue)" "FObj acc (fst kv) # fs"]
    by (simp add: vstart_simps obj_set_append [OF ca])
  show ?case
    using pstep_key [OF "2.prems"(3), of acc k0 fs "fst kv"] v
    by (simp add: prun_append)
next
  case (3 kv y zs)
  have ca: "can_append (map fst acc) (fst kv)" using "3.prems"(2) by simp
  have wf: "wf_keys (map fst (acc @ [kv])) (map fst (y # zs))" using "3.prems"(2) by simp
  have v: "prun (FObj acc (fst kv) # fs, SValue) (tokens_of (snd kv))
           = Some (FObj (acc @ [kv]) (fst kv) # fs, SNext)"
    using "3.prems"(4) [of kv "(FObj acc (fst kv) # fs, SValue)" "FObj acc (fst kv) # fs"]
    by (simp add: vstart_simps obj_set_append [OF ca])
  have r: "prun (FObj (acc @ [kv]) (fst kv) # fs, SKey)
             (sep_tokens (map (\<lambda>kv. TString (fst kv) # TColon # tokens_of (snd kv)) (y # zs)) @ [TRBrace])
           = Some (deliver fs (JObj ((acc @ [kv]) @ y # zs)))"
  proof (rule "3.IH"(2))
    show "y # zs \<noteq> []" by simp
    show "wf_keys (map fst (acc @ [kv])) (map fst (y # zs))" by (rule wf)
    show "SKey = SFirst \<or> SKey = SKey" by simp
    show "prun st' (tokens_of (snd kva)) = Some (deliver fs' (snd kva))"
      if "kva \<in> set (y # zs)" "vstart st' fs'" for kva st' fs'
      using "3.prems"(4) [of kva st' fs'] that by simp
  qed
  show ?case
    using pstep_key [OF "3.prems"(3), of acc k0 fs "fst kv"] v r
    by (simp add: prun_append)
qed

lemma tokens_of_first: "\<exists>t ts. tokens_of v = t # ts \<and> t \<noteq> TRBracket"
  by (cases v) auto

lemma prun_value:
  "wf_json v \<Longrightarrow> vstart st fs \<Longrightarrow> prun st (tokens_of v) = Some (deliver fs v)"
proof (induction v arbitrary: st fs)
  case JNull
  then show ?case by (simp add: pstep_vstart)
next
  case (JBool b)
  then show ?case by (simp add: pstep_vstart)
next
  case (JNum n)
  then show ?case by (simp add: pstep_vstart)
next
  case (JStr s)
  then show ?case by (simp add: pstep_vstart)
next
  case (JArr xs)
  have op: "pstep st TLBracket = Some (FArr [] # fs, SFirst)"
    using JArr.prems(2) by (simp add: pstep_vstart)
  show ?case
  proof (cases "xs = []")
    case True
    then show ?thesis using op by simp
  next
    case False
    have "prun (FArr [] # fs, SFirst) (sep_tokens (map tokens_of xs) @ [TRBracket])
          = Some (deliver fs (JArr ([] @ xs)))"
    proof (rule prun_elems [OF _ False])
      show "prun st' (tokens_of x) = Some (deliver fs' x)" if "x \<in> set xs" "vstart st' fs'" for x st' fs'
        using JArr.IH [OF that(1) _ that(2)] JArr.prems(1) that(1) by (simp add: list_all_iff)
    qed (simp add: vstart_simps)
    then show ?thesis using op by simp
  qed
next
  case (JObj kvs)
  have op: "pstep st TLBrace = Some (FObj [] [] # fs, SFirst)"
    using JObj.prems(2) by (simp add: pstep_vstart)
  show ?case
  proof (cases "kvs = []")
    case True
    then show ?thesis using op by simp
  next
    case False
    have "prun (FObj [] [] # fs, SFirst)
            (sep_tokens (map (\<lambda>kv. TString (fst kv) # TColon # tokens_of (snd kv)) kvs) @ [TRBrace])
          = Some (deliver fs (JObj ([] @ kvs)))"
    proof (rule prun_members [OF _ False])
      show "prun st' (tokens_of (snd kv)) = Some (deliver fs' (snd kv))"
        if "kv \<in> set kvs" "vstart st' fs'" for kv st' fs'
      proof -
        have "snd kv \<in> Basic_BNFs.snds kv" by (cases kv) simp
        moreover have "wf_json (snd kv)" using JObj.prems(1) that(1) by (simp add: list_all_iff)
        ultimately show ?thesis using JObj.IH that by blast
      qed
    qed (use JObj.prems(1) in simp_all)
    then show ?thesis using op by simp
  qed
qed

lemma JSON_parse_stringify: "wf_json v \<Longrightarrow> JSON_parse (JSON_stringify v) = Some v"
proof -
  assume wf: "wf_json v"
  have "lex (JSON_stringify v @ []) = map_option ((@) (tokens_of v)) (lex [])"
    by (rule lex_stringify) (simp add: num_safe_punct)
  then have l: "lex (JSON_stringify v) = Some (tokens_of v)" by (simp add: lex.simps)
  have "prun ([], SValue) (tokens_of v) = Some (deliver [] v)"
    by (rule prun_value [OF wf]) (simp add: vstart_simps)
  with l show ?thesis by (simp add: JSON_parse_def)
qed

subsection \<open>Nested encodings\<close>

lemma is_object_truthy: "is_object v \<Longrightarrow> truthy v"
  by (cases v) simp_all

lemma tryParseJSON_stringify: "wf_json v \<Longrightarrow> tryParseJSON (JStr (JSON_stringify v)) = v"
  by (simp add: JSON_parse_stringify)

lemma unwrap_loop_container:
  assumes wf: "wf_json C" and ob: "is_object C"
  shows "unwrap_loop (Suc m) (JSON_stringify C) = (C, JSON_stringify C)"
proof -
  have t: "tryParseJSON (JStr (JSON_stringify C)) = C"
    using wf by (rule tryParseJSON_stringify)
  show ?thesis unfolding unwrap_loop.simps t using ob by (cases C) simp_all
qed

lemma unwrap_loop_string: "unwrap_loop (Suc m) (JSON_stringify (JStr s)) = unwrap_loop m s"
  using JSON_parse_stringify [of "JStr s"] by simp

lemma encode_once_funpow_Suc:
  "(encode_once ^^ Suc n) C = JStr (JSON_stringify ((encode_once ^^ n) C))"
  by (simp add: encode_once_def)

lemma wf_funpow: "wf_json C \<Longrightarrow> wf_json ((encode_once ^^ n) C)"
  by (cases n) (simp_all add: encode_once_def)

lemma unwrap_loop_layers:
  assumes wf: "wf_json C" and ob: "is_object C"
  shows "unwrap_loop m (JSON_stringify ((encode_once ^^ k) C)) =
           (if k < m then (C, JSON_stringify C)
            else (JNull, JSON_stringify ((encode_once ^^ (k - m)) C)))"
proof (induction m arbitrary: k)
  case 0
  then show ?case by simp
next
  case (Suc m)
  show ?case
  proof (cases k)
    case 0
    then show ?thesis using unwrap_loop_container [OF wf ob] by simp
  next
    case (Suc j)
    have "unwrap_loop (Suc m) (JSON_stringify ((encode_once ^^ Suc j) C))
          = unwrap_loop m (JSON_stringify ((encode_once ^^ j) C))"
      by (simp only: encode_once_funpow_Suc unwrap_loop_string)
    then show ?thesis using Suc.IH [of j] Suc by simp
  qed
qed

text \<open>
  Claim C4. For every JSON container C and every depth n from 1 to 5, unwrapDeepJSONString
  applied to the text of C JSON-string-encoded n times yields C, the innermost container.
  For a depth above 5 the loop stops at its bound of five iterations and yields no parsed
  value; the text it keeps is the last layer it unwrapped, C encoded \<open>n - 5\<close> times.
\<close>

theorem unwrap_nested_encodings:
  assumes "wf_json C" and "is_object C" and "1 \<le> n"
  shows "unwrapDeepJSONString (encode_times n C) =
           (if n \<le> 5 then (C, encode_times 1 C) else (JNull, encode_times (n - 5) C))"
proof -
  have "unwrap_loop 5 (JSON_stringify ((encode_once ^^ (n - 1)) C)) =
          (if n - 1 < 5 then (C, JSON_stringify C)
           else (JNull, JSON_stringify ((encode_once ^^ (n - 1 - 5)) C)))"
    using assms(1,2) by (rule unwrap_loop_layers)
  moreover have "n - 1 < 5 \<longleftrightarrow> n \<le> 5" using assms(3) by arith
  moreover have "n - 1 - 5 = n - 5 - 1" by arith
  ultimately show ?thesis
    by (simp add: unwrapDeepJSONString_def encode_times_def)
qed

theorem unwrap_nested_encodings_witness:
  "unwrapDeepJSONString (encode_times 2 (JObj [(''a'', JNum 1)]))
     = (JObj [(''a'', JNum 1)], [CHR ''{'', CHR 0x22, CHR ''a'', CHR 0x22, CHR '':'', CHR ''1'', CHR ''}''])
   \<and> unwrapDeepJSONString (encode_times 6 (JObj [(''a'', JNum 1)]))
     = (JNull, [CHR ''{'', CHR 0x22, CHR ''a'', CHR 0x22, CHR '':'', CHR ''1'', CHR ''}''])"
proof -
  let ?C = "JObj [(''a'', JNum 1)]"
  have h: "wf_json ?C" "is_object ?C" by (simp_all add: can_append_def is_array_index_def is_digit_def)
  have t: "encode_times 1 ?C = [CHR ''{'', CHR 0x22, CHR ''a'', CHR 0x22, CHR '':'', CHR ''1'', CHR ''}'']"
    by code_simp
  have "unwrapDeepJSONString (encode_times 2 ?C) = (?C, encode_times 1 ?C)"
    using unwrap_nested_encodings [OF h, of 2] by simp
  moreover have "unwrapDeepJSONString (encode_times 6 ?C) = (JNull, encode_times 1 ?C)"
    using unwrap_nested_encodings [OF h, of 6] by simp
  ultimately show ?thesis by (simp only: t)
qed


section \<open>Properties of parseToolResponse\<close>


lemma extract_result: "extractFirstJSONObjectFromText s = JNull \<or> is_object (extractFirstJSONObjectFromText s)"
  by (auto simp: extractFirstJSONObjectFromText_def Let_def split: option.splits)

lemma extract_direct:
  "is_object (tryParseJSON (JStr s)) \<Longrightarrow> extractFirstJSONObjectFromText s = tryParseJSON (JStr s)"
  by (simp add: extractFirstJSONObjectFromText_def Let_def is_object_truthy del: tryParseJSON.simps)

lemma not_object_JNull: "\<not> is_object JNull"
  by simp

lemma extract_null_iff:
  "extractFirstJSONObjectFromText s = JNull \<longleftrightarrow>
     \<not> is_object (tryParseJSON (JStr s))
     \<and> (\<forall>m. objMatch s = Some m \<longrightarrow> \<not> is_object (tryParseJSON (JStr m)))"
proof (cases "is_object (tryParseJSON (JStr s))")
  case True
  then show ?thesis using extract_direct [OF True] by (auto simp del: tryParseJSON.simps)
next
  case False
  then show ?thesis
    by (cases "objMatch s")
       (auto simp: extractFirstJSONObjectFromText_def Let_def is_object_truthy
             simp del: tryParseJSON.simps)
qed

lemma unwrap_then_rescue_result:
  "unwrap_then_rescue s = JNull \<or> is_object (unwrap_then_rescue s)"
  using extract_result by (auto simp: unwrap_then_rescue_def split: prod.splits)

lemma truthy_found: "truthy (unwrap_then_rescue s) \<longleftrightarrow> is_object (unwrap_then_rescue s)"
  using unwrap_then_rescue_result [of s] is_object_truthy by fastforce

lemma scan_docs_result: "scan_docs ds = JNull \<or> is_object (scan_docs ds)"
proof (induction ds)
  case Nil
  then show ?case by simp
next
  case (Cons d ds)
  then show ?case
    using unwrap_then_rescue_result
    by (cases d) (auto simp: Let_def truthy_found)
qed

lemma after_result_result: "after_result x = Inr v \<Longrightarrow> v = JNull \<or> is_object v"
  using scan_docs_result extract_result
  by (auto simp: after_result_def scan_sources_def Let_def split: if_splits sum.splits)

lemma parseToolResponse_result:
  assumes a: "parseToolResponse x = Inr v"
  shows "v = JNull \<or> is_object v"
proof (cases x)
  case (JStr s)
  then show ?thesis using a extract_result [of s] by (auto simp: parseToolResponse_def)
next
  case JNull
  then show ?thesis using a by (auto simp: parseToolResponse_def)
next
  case (JBool b)
  then show ?thesis using a after_result_result [of x v] by (auto simp: parseToolResponse_def)
next
  case (JNum n)
  then show ?thesis using a after_result_result [of x v] by (auto simp: parseToolResponse_def)
next
  case (JArr xs)
  then show ?thesis using a after_result_result [of x v] by (auto simp: parseToolResponse_def)
next
  case (JObj kvs)
  show ?thesis
  proof (cases "obj_get kvs ''result''")
    case None
    then show ?thesis using a JObj after_result_result [of x v] by (auto simp: parseToolResponse_def)
  next
    case (Some res)
    then show ?thesis
      using a JObj after_result_result [of x v] unwrap_then_rescue_result
      by (cases res)
         (auto simp: parseToolResponse_def Let_def truthy_found split: if_splits sum.splits)
  qed
qed

lemma scan_docs_skips:
  "\<forall>d \<in> set bad. unwrap_then_rescue d = JNull \<Longrightarrow> is_object (unwrap_then_rescue good) \<Longrightarrow>
   scan_docs (map JStr (bad @ good # rest)) = unwrap_then_rescue good"
  by (induction bad) (simp_all add: Let_def is_object_truthy)

lemma join_results_total:
  "\<forall>x \<in> set xs. \<exists>s. x = Inr s \<Longrightarrow> \<exists>s. join_results xs = Inr s"
proof (induction xs rule: induct_list012)
  case 1
  then show ?case by simp
next
  case (2 x)
  then show ?case by simp
next
  case (3 x y zs)
  then obtain a b where "x = Inr a" "join_results (y # zs) = Inr b" by auto
  then show ?case by simp
qed

lemma js_String_total: "no_toString v \<Longrightarrow> \<exists>s. js_String v = Inr s"
proof (induction v)
  case (JArr xs)
  have "\<forall>r \<in> set (map (\<lambda>x. if x = JNull then Inr [] else js_String x) xs). \<exists>s. r = Inr s"
    using JArr by (auto simp: list_all_iff)
  then show ?case by (simp only: js_String.simps join_results_total)
next
  case (JObj kvs)
  then show ?case by simp
qed simp_all

lemma no_toString_member:
  "no_toString (JObj kvs) \<Longrightarrow> obj_get kvs k = Some v \<Longrightarrow> no_toString v"
proof -
  assume a: "no_toString (JObj kvs)" and g: "obj_get kvs k = Some v"
  have "(k, v) \<in> set kvs" using g by (induction kvs) (auto split: if_splits)
  then show ?thesis using a by (auto simp: list_all_iff)
qed

lemma after_result_total: "no_toString x \<Longrightarrow> \<exists>v. after_result x = Inr v"
  using js_String_total [of x] by (auto simp: after_result_def Let_def)

lemma parseToolResponse_total:
  assumes nt: "no_toString x"
  shows "\<exists>v. parseToolResponse x = Inr v"
proof (cases x)
  case (JObj kvs)
  show ?thesis
  proof (cases "obj_get kvs ''result''")
    case None
    then show ?thesis using JObj after_result_total [OF nt] by (simp add: parseToolResponse_def)
  next
    case (Some res)
    have "no_toString res" using nt JObj Some no_toString_member by blast
    then obtain str where s: "js_String res = Inr str" using js_String_total by blast
    show ?thesis
      using JObj Some s after_result_total [OF nt]
      by (cases res) (auto simp: parseToolResponse_def Let_def)
  qed
qed (use after_result_total [OF nt] in \<open>auto simp: parseToolResponse_def\<close>)

lemma parse_envelope_sources:
  assumes res: "obj_get kvs ''result'' = Some (JStr r)" and r: "unwrap_then_rescue r = JNull"
    and src: "obj_get kvs ''sources'' = Some (JArr ss)"
    and docs: "concat (map source_docs ss) = map JStr (bad @ good # rest)"
    and bad: "\<forall>d \<in> set bad. unwrap_then_rescue d = JNull"
    and good: "is_object (unwrap_then_rescue good)"
  shows "parseToolResponse (JObj kvs) = Inr (unwrap_then_rescue good)"
proof -
  have "scan_sources (JObj kvs) = scan_docs (map JStr (bad @ good # rest))"
    by (simp add: scan_sources_def src docs)
  then have "scan_sources (JObj kvs) = unwrap_then_rescue good"
    using scan_docs_skips [OF bad good] by simp
  then have a: "after_result (JObj kvs) = Inr (unwrap_then_rescue good)"
    using good by (simp add: after_result_def Let_def is_object_truthy)
  show ?thesis
    using a by (simp add: parseToolResponse_def res r Let_def)
qed

text \<open>
  Claim C3, as the code has it. parseToolResponse never raises for an input that holds no
  object with an own property \<open>toString\<close>, every string among them, and whatever it
  returns, for any input, is none or a container. A fragment that fails to parse is
  discarded and the extraction goes on with the next candidate: in an envelope whose
  \<open>result\<close> and first documents give no container, the first document that gives one,
  over the documents of all sources in source order and then document order, is the
  result. For a text the result is that of extractFirstJSONObjectFromText: none exactly
  when neither the whole text nor its one greedy slice (from the first brace to the last,
  or without such a slice from the first bracket to the last) parses to a container. A
  body that is not a string is read as an envelope and not returned as it is.
\<close>

theorem parseToolResponse_extraction:
  "(\<forall>x. no_toString x \<longrightarrow> (\<exists>v. parseToolResponse x = Inr v))
   \<and> (\<forall>s. parseToolResponse (JStr s) = Inr (extractFirstJSONObjectFromText s))
   \<and> (\<forall>s. extractFirstJSONObjectFromText s = JNull \<longleftrightarrow>
          (\<not> is_object (tryParseJSON (JStr s))
           \<and> (\<forall>m. objMatch s = Some m \<longrightarrow> \<not> is_object (tryParseJSON (JStr m)))))
   \<and> (\<forall>x v. parseToolResponse x = Inr v \<longrightarrow> v = JNull \<or> is_object v)
   \<and> (\<forall>kvs r ss bad good rest.
          obj_get kvs ''result'' = Some (JStr r) \<longrightarrow> unwrap_then_rescue r = JNull \<longrightarrow>
          obj_get kvs ''sources'' = Some (JArr ss) \<longrightarrow>
          concat (map source_docs ss) = map JStr (bad @ good # rest) \<longrightarrow>
          (\<forall>d \<in> set bad. unwrap_then_rescue d = JNull) \<longrightarrow>
          is_object (unwrap_then_rescue good) \<longrightarrow>
          parseToolResponse (JObj kvs) = Inr (unwrap_then_rescue good))"
proof (intro conjI allI impI)
  fix x
  assume "no_toString x"
  then show "\<exists>v. parseToolResponse x = Inr v" by (rule parseToolResponse_total)
next
  fix s
  show "parseToolResponse (JStr s) = Inr (extractFirstJSONObjectFromText s)"
    by (simp add: parseToolResponse_def)
  show "extractFirstJSONObjectFromText s = JNull \<longleftrightarrow>
          (\<not> is_object (tryParseJSON (JStr s))
           \<and> (\<forall>m. objMatch s = Some m \<longrightarrow> \<not> is_object (tryParseJSON (JStr m))))"
    by (rule extract_null_iff)
next
  fix x v
  assume "parseToolResponse x = Inr v"
  then show "v = JNull \<or> is_object v" by (rule parseToolResponse_result)
next
  fix kvs r ss bad good rest
  assume "obj_get kvs ''result'' = Some (JStr r)" "unwrap_then_rescue r = JNull"
    "obj_get kvs ''sources'' = Some (JArr ss)"
    "concat (map source_docs ss) = map JStr (bad @ good # rest)"
    "\<forall>d \<in> set bad. unwrap_then_rescue d = JNull"
    "is_object (unwrap_then_rescue good)"
  then show "parseToolResponse (JObj kvs) = Inr (unwrap_then_rescue good)"
    by (rule parse_envelope_sources)
qed

theorem parseToolResponse_extraction_witness:
  "unwrap_then_rescue ''{'' = JNull \<and> unwrap_then_rescue ''nope'' = JNull
   \<and> parseToolResponse
       (JObj [(''result'', JStr ''{''),
              (''sources'', JArr [JObj [(''document'', JArr [JStr ''nope''])],
                                  JObj [(''document'', JStr ''{}'')]])])
     = Inr (JObj [])
   \<and> parseToolResponse (JStr ''x [1,2] y'') = Inr (JArr [JNum 1, JNum 2])
   \<and> (\<exists>v. parseToolResponse (JArr [JNum 1, JObj [(''a'', JNull)]]) = Inr v)"
proof -
  let ?ss = "[JObj [(''document'', JArr [JStr ''nope''])], JObj [(''document'', JStr ''{}'')]]"
  let ?kvs = "[(''result'', JStr ''{''), (''sources'', JArr ?ss)]"
  have r: "unwrap_then_rescue ''{'' = JNull" by code_simp
  have b: "\<forall>d \<in> set [''nope'']. unwrap_then_rescue d = JNull" by code_simp
  have g: "unwrap_then_rescue ''{}'' = JObj []" by code_simp
  have e: "extractFirstJSONObjectFromText ''x [1,2] y'' = JArr [JNum 1, JNum 2]" by code_simp
  have d: "concat (map source_docs ?ss) = map JStr ([''nope''] @ ''{}'' # [])"
    by (simp add: source_docs_def)
  have E: "parseToolResponse (JObj kvs) = Inr (unwrap_then_rescue good)"
    if "obj_get kvs ''result'' = Some (JStr r)" "unwrap_then_rescue r = JNull"
      "obj_get kvs ''sources'' = Some (JArr ss)"
      "concat (map source_docs ss) = map JStr (bad @ good # rest)"
      "\<forall>d \<in> set bad. unwrap_then_rescue d = JNull"
      "is_object (unwrap_then_rescue good)" for kvs r ss bad good rest
    using parseToolResponse_extraction that by blast
  have h1: "obj_get ?kvs ''result'' = Some (JStr ''{'')" by simp
  have h3: "obj_get ?kvs ''sources'' = Some (JArr ?ss)" by simp
  have g': "is_object (unwrap_then_rescue ''{}'')" by (simp add: g)
  have "parseToolResponse (JObj ?kvs) = Inr (unwrap_then_rescue ''{}'')"
    by (rule E [OF h1 r h3 d b g'])
  moreover from parseToolResponse_extraction have
    "parseToolResponse (JStr ''x [1,2] y'') = Inr (extractFirstJSONObjectFromText ''x [1,2] y'')"
    by blast
  moreover have "\<exists>v. parseToolResponse (JArr [JNum 1, JObj [(''a'', JNull)]]) = Inr v"
  proof -
    have "no_toString (JArr [JNum 1, JObj [(''a'', JNull)]])" by simp
    with parseToolResponse_extraction show ?thesis by blast
  qed
  ultimately show ?thesis using r b g e by simp
qed

text \<open>
  Where the claim as stated fails. A structured body can yield none: the empty mapping
  has no \<open>result\<close>, no \<open>sources\<close>, and its string \<open>[object Object]\<close> holds no JSON.
  The extraction can raise: the string of a \<open>result\<close> object with an own property
  \<open>toString\<close> is a TypeError. None is returned for a text that holds a container: in
  \<open>a {x} [1]\<close> the slice from the brace fails to parse and the slice \<open>[1]\<close> is not
  tried.
\<close>

theorem structured_body_counterexample:
  "is_object (JObj []) \<and> parseToolResponse (JObj []) = Inr JNull
   \<and> parseToolResponse (JObj [(''result'', JObj [(''toString'', JNum 1)])]) = Inl type_error
   \<and> JSON_parse ''[1]'' = Some (JArr [JNum 1])
   \<and> parseToolResponse (JStr ''a {x} [1]'') = Inr JNull"
  by code_simp

section \<open>Properties of the route handler\<close>






subsection \<open>Failures of a call\<close>









section \<open>Normalizing a page of identified records\<close>

text \<open>
  Where every item has a truthy primitive identifier and the identifiers differ, no
  placeholder is made and the second normalization leaves the items as they are.
\<close>

lemma copy_props_wf:
  "wf_keys (map fst acc) (map fst kvs) \<Longrightarrow> copy_props acc kvs = acc @ kvs"
proof (induction kvs arbitrary: acc)
  case Nil
  then show ?case by (simp add: copy_props_def)
next
  case (Cons kv kvs)
  have ca: "can_append (map fst acc) (fst kv)" and wf: "wf_keys (map fst (acc @ [kv])) (map fst kvs)"
    using Cons.prems by simp_all
  have "copy_props acc (kv # kvs) = copy_props (obj_set acc (fst kv) (snd kv)) kvs"
    by (simp add: copy_props_def case_prod_beta)
  also have "\<dots> = copy_props (acc @ [kv]) kvs"
    by (simp add: obj_set_append [OF ca])
  also have "\<dots> = (acc @ [kv]) @ kvs" by (rule Cons.IH [OF wf])
  finally show ?case by simp
qed

lemma spread2_empty_wf: "wf_keys [] (map fst it) \<Longrightarrow> spread2 [] it = it"
  using copy_props_wf [of "[]" it] by (simp add: spread2_def copy_props_def)

lemma coalesce_rows_identified:
  "list_all identified its \<Longrightarrow>
   coalesce_rows (map JObj its) c cur =
     (if its = [] then (c, cur)
      else ((case cur of None \<Rightarrow> c | Some x \<Rightarrow> c @ [x]) @ butlast its, Some (last its)))"
proof (induction its arbitrary: c cur)
  case Nil
  then show ?case by simp
next
  case (Cons it its)
  have id: "identified it" and rest: "list_all identified its" using Cons.prems by simp_all
  have own: "obj_get it ''Bookmark_ID'' \<noteq> None"
    using id by (auto simp: identified_def split: option.splits)
  have cp: "copy_props [] it = it"
    using id copy_props_wf [of "[]" it] by (simp add: identified_def)
  show ?case
    using own Cons.IH [OF rest] by (cases its) (simp_all add: cp)
qed

lemma coalesce_identified: "list_all identified its \<Longrightarrow> coalesce (map JObj its) = its"
  by (cases "its = []") (simp_all add: coalesce_def coalesce_rows_identified)

lemma map_get_absent: "k \<notin> fst ` set m \<Longrightarrow> map_get m k = None"
  by (induction m) auto

lemma map_set_absent: "k \<notin> fst ` set m \<Longrightarrow> map_set m k v = m @ [(k, v)]"
  by (induction m) auto

lemma record_key_identified: "identified it \<Longrightarrow> record_key byId pos it = Prim (id_of it)"
  by (auto simp: identified_def record_key_def id_of_def split: option.splits)

lemma dedupe_identified:
  "list_all identified its \<Longrightarrow> distinct (map id_of its) \<Longrightarrow>
   (\<forall>it \<in> set its. Prim (id_of it) \<notin> fst ` set byId) \<Longrightarrow>
   dedupe its pos byId = byId @ map (\<lambda>it. (Prim (id_of it), it)) its"
proof (induction its arbitrary: pos byId)
  case Nil
  then show ?case by simp
next
  case (Cons it its)
  have id: "identified it" and rest: "list_all identified its" using Cons.prems(1) by simp_all
  have k: "record_key byId pos it = Prim (id_of it)" by (rule record_key_identified [OF id])
  have ab: "Prim (id_of it) \<notin> fst ` set byId" using Cons.prems(3) by simp
  have sp: "spread2 [] it = it" using id by (simp add: identified_def spread2_empty_wf)
  have step: "dedupe (it # its) pos byId = dedupe its (Suc pos) (byId @ [(Prim (id_of it), it)])"
    by (simp only: dedupe.simps Let_def k map_get_absent [OF ab] map_set_absent [OF ab]) (simp add: sp)
  have "dedupe its (Suc pos) (byId @ [(Prim (id_of it), it)])
        = (byId @ [(Prim (id_of it), it)]) @ map (\<lambda>it. (Prim (id_of it), it)) its"
  proof (rule Cons.IH [OF rest])
    show "distinct (map id_of its)" using Cons.prems(2) by simp
    show "\<forall>x \<in> set its. Prim (id_of x) \<notin> fst ` set (byId @ [(Prim (id_of it), it)])"
      using Cons.prems(2,3) by (auto simp: image_iff)
  qed
  with step show ?case by simp
qed

lemma normalize_identified_items:
  assumes "list_all identified its" and "distinct (map id_of its)"
  shows "get_prop (normalizeKarakeepPayload (JObj ((''items'', JArr (map JObj its))  # others))) ''items''
         = Some (JArr (map JObj its))"
proof -
  have d: "dedupe its 0 [] = map (\<lambda>it. (Prim (id_of it), it)) its"
    using dedupe_identified [OF assms, of "[]" 0] by simp
  show ?thesis
    by (simp add: normalizeKarakeepPayload_def coalesce_identified [OF assms(1)] d Let_def comp_def
             del: dedupe.simps)
qed

end
